theory Spec2Isabelle
  imports Complex_Main "HOL-Library.Sublist" "HOL-Library.Log_Nat"
begin

section \<open>Python string operations used by the humanization pipeline\<close>

text \<open>
  Texts are \<open>string\<close>s, one \<open>char\<close> per code point below 256. The operations below
  are the methods of Python's \<open>str\<close> that \<open>ml-service/main.py\<close> calls.
\<close>

text \<open>\<open>c.isspace()\<close> for a code point below 256: tab to carriage return, the four
  separators 28..31, the blank, NEL (133) and the no-break space (160).\<close>

definition py_isspace :: "char \<Rightarrow> bool" where
  "py_isspace c =
     (let n = of_char c :: nat
      in (9 \<le> n \<and> n \<le> 13) \<or> (28 \<le> n \<and> n \<le> 32) \<or> n = 133 \<or> n = 160)"

text \<open>\<open>s.strip()\<close>: whitespace removed at both ends.\<close>

definition strip :: "string \<Rightarrow> string" where
  "strip s = rev (dropWhile py_isspace (rev (dropWhile py_isspace s)))"

text \<open>\<open>s.split(sep)\<close> for a one-character separator: the pieces between the
  separators, empty pieces included, so that there is always one piece more than there
  are separators.\<close>

fun split_on :: "char \<Rightarrow> string \<Rightarrow> string list" where
  "split_on sep [] = [[]]"
| "split_on sep (c # cs) =
     (if c = sep then [] # split_on sep cs
      else (case split_on sep cs of
              [] \<Rightarrow> [[c]]
            | p # ps \<Rightarrow> (c # p) # ps))"

text \<open>\<open>s.split()\<close>: the maximal runs of non-whitespace characters.\<close>

fun split_ws_acc :: "string \<Rightarrow> string \<Rightarrow> string list" where
  "split_ws_acc w [] = (if w = [] then [] else [rev w])"
| "split_ws_acc w (c # cs) =
     (if py_isspace c then (if w = [] then split_ws_acc [] cs else rev w # split_ws_acc [] cs)
      else split_ws_acc (c # w) cs)"

definition split_ws :: "string \<Rightarrow> string list" where
  "split_ws s = split_ws_acc [] s"

text \<open>\<open>sep.join(xs)\<close>.\<close>

fun join :: "string \<Rightarrow> string list \<Rightarrow> string" where
  "join sep [] = []"
| "join sep [x] = x"
| "join sep (x # y # ys) = x @ sep @ join sep (y # ys)"

text \<open>\<open>s.replace(old, new)\<close>: the occurrences of \<open>old\<close> are found from the left and do
  not overlap; the scan goes on behind each occurrence it has replaced. An empty \<open>old\<close>
  matches before every character and at the end.\<close>

function replace_scan :: "string \<Rightarrow> string \<Rightarrow> string \<Rightarrow> string" where
  "replace_scan old new [] = []"
| "replace_scan old new (c # cs) =
     (if old \<noteq> [] \<and> prefix old (c # cs)
      then new @ replace_scan old new (drop (length old) (c # cs))
      else c # replace_scan old new cs)"
  by pat_completeness auto
termination
  by (relation "measure (\<lambda>(old, new, s). length s)") auto

definition replace :: "string \<Rightarrow> string \<Rightarrow> string \<Rightarrow> string" where
  "replace old new s =
     (if old = [] then new @ concat (map (\<lambda>c. c # new) s) else replace_scan old new s)"

section \<open>Values, errors and the external models\<close>

text \<open>
  An exception raised inside the pipeline is a value. \<open>ZeroDivisionError\<close> and
  \<open>TypeError\<close> are Python's own, \<open>ValueError\<close> is what \<open>np.dot\<close> raises on vectors of
  different length and \<open>np.random.choice\<close> on what is not a one-dimensional array, and
  \<open>ModelError msg\<close> stands for any exception that a call into a loaded model raises
  (the model missing from the registry included).
\<close>

datatype error = ZeroDivisionError | ValueError | TypeError | ModelError string

subsection \<open>Floating-point numbers\<close>

text \<open>
  The coherence gate computes with numpy scalars of the type of the embedding arrays. A
  finite floating-point number is the rational number it denotes; an operation returns
  the exact result rounded to the nearest number with \<open>p\<close> significant bits, ties to
  the even significand, with \<open>p = 24\<close> for \<open>float32\<close> and \<open>p = 53\<close> for \<open>float64\<close>. The
  exponent is not bounded: overflow and subnormal numbers are outside this model.
\<close>

datatype dtype = Float32 | Float64

fun precision :: "dtype \<Rightarrow> nat" where
  "precision Float32 = 24"
| "precision Float64 = 53"

text \<open>\<open>pow2 e\<close> is two to the power \<open>e\<close>, and \<open>ilog2 x\<close>, for a positive \<open>x\<close>, the
  exponent \<open>e\<close> with \<open>pow2 e \<le> x < pow2 (e + 1)\<close> (lemma \<open>ilog2_bounds\<close>).\<close>

definition pow2 :: "int \<Rightarrow> rat" where
  "pow2 e = (if 0 \<le> e then 2 ^ nat e else 1 / 2 ^ nat (- e))"

definition ilog2 :: "rat \<Rightarrow> int" where
  "ilog2 x = (if 1 \<le> x then bitlen \<lfloor>x\<rfloor> - 1 else - bitlen (\<lceil>1 / x\<rceil> - 1))"

text \<open>Rounding to the nearest integer, a tie to the even one.\<close>

definition round_half_even :: "rat \<Rightarrow> int" where
  "round_half_even y =
     (let f = \<lfloor>y\<rfloor>; r = y - of_int f
      in if r < 1 / 2 then f else if 1 / 2 < r then f + 1 else if even f then f else f + 1)"

text \<open>\<open>fl p x\<close>: the number with \<open>p\<close> significant bits nearest to \<open>x\<close>. The sum, the
  product and the quotient of two floating-point numbers are \<open>fl p\<close> of the exact
  sum, product and quotient.\<close>

definition fl :: "nat \<Rightarrow> rat \<Rightarrow> rat" where
  "fl p x =
     (if x = 0 then 0
      else (let e = ilog2 \<bar>x\<bar> - (int p - 1)
            in of_int (round_half_even (x / pow2 e)) * pow2 e))"

text \<open>The integer square root, rounded down.\<close>

function isqrt :: "int \<Rightarrow> int" where
  "isqrt n =
     (if n < 4 then (if n \<le> 0 then 0 else 1)
      else (let r = 2 * isqrt (n div 4) in if (r + 1) * (r + 1) \<le> n then r + 1 else r))"
  by pat_completeness auto
termination
  by (relation "measure nat") auto

declare isqrt.simps [simp del]

text \<open>\<open>fsqrt p x\<close>: the number with \<open>p\<close> significant bits nearest to the square root of
  \<open>x\<close>. With \<open>y\<close> the argument scaled by a power of four so that its root has \<open>p\<close>
  bits before the point and \<open>m\<close> the integer part of that root, the root is rounded down
  to \<open>m\<close> or up to \<open>m + 1\<close> as \<open>y\<close> lies below or above the square of \<open>m + 1/2\<close>. The
  code takes roots of sums of squares only; for an argument that is not positive the
  value here is 0.\<close>

definition fsqrt :: "nat \<Rightarrow> rat \<Rightarrow> rat" where
  "fsqrt p x =
     (if x \<le> 0 then 0
      else (let e = ilog2 x div 2 - (int p - 1);
                y = x / pow2 (2 * e);
                m = isqrt \<lfloor>y\<rfloor>;
                t = of_int (m * m + m) + 1 / 4
            in of_int (if y < t then m else if t < y then m + 1
                       else if even m then m else m + 1) * pow2 e))"

text \<open>A numpy scalar: a finite number, or one of the three special values that a
  division by zero gives (with a warning, not an exception).\<close>

datatype pyfloat = Num rat | NaN | PosInf | NegInf

text \<open>
  The value of the literal \<open>0.85\<close>: the \<open>float64\<close> nearest to 85/100. The comparison
  \<open>similarity < 0.85\<close> is a comparison with this number: exactly so for a \<open>float64\<close>
  similarity, and for a \<open>float32\<close> similarity as well, because no \<open>float32\<close> lies
  between this number and the \<open>float32\<close> nearest to 85/100 (which is larger).
\<close>

definition py_0_85 :: rat where
  "py_0_85 = 7656119366529843 / 9007199254740992"

text \<open>\<open>x < y\<close> for a scalar \<open>x\<close> and a finite \<open>y\<close>: every comparison with NaN is
  false.\<close>

fun float_lt :: "pyfloat \<Rightarrow> rat \<Rightarrow> bool" where
  "float_lt (Num x) y = (x < y)"
| "float_lt NaN y = False"
| "float_lt PosInf y = False"
| "float_lt NegInf y = True"

subsection \<open>Documents, models and the random source\<close>

text \<open>What the pipeline reads from a parsed document: the tokens with their
  attributes (\<open>tok_pos\<close> and \<open>tok_lemma\<close> are the attributes \<open>pos_\<close> and \<open>lemma_\<close>),
  and the sentences, each with its text and its tokens.\<close>

record token =
  tok_text :: string
  tok_pos :: string
  tok_lemma :: string
  is_alpha :: bool
  is_space :: bool

record span =
  span_text :: string
  span_tokens :: "token list"

record doc =
  doc_tokens :: "token list"
  sents :: "span list"

text \<open>
  The registry \<open>models\<close>, as far as the pipeline calls it. Every call may raise
  (\<open>Inl\<close>). \<open>nlp\<close> is the parser. \<open>bart_generate i prompt\<close> is tokenising, generating
  and decoding with the restructuring model for the sentence at position \<open>i\<close> of the text:
  generation samples, so two calls with one prompt may differ. \<open>auth_generate\<close> is the
  same for the authenticity model, called once for each request. \<open>semantic_encode k t\<close> is
  the vector \<open>encode([t])[0]\<close> of the \<open>k\<close>-th call of \<open>encode\<close> in a request, its
  elements numbers of the type \<open>embedding_dtype\<close>; this is \<open>float32\<close> for the sentence
  transformer that \<open>initialize_models\<close> loads.
\<close>

record models =
  nlp :: "string \<Rightarrow> error + doc"
  bart_generate :: "nat \<Rightarrow> string \<Rightarrow> error + string"
  auth_generate :: "string \<Rightarrow> error + string"
  semantic_encode :: "nat \<Rightarrow> string \<Rightarrow> error + rat list"
  embedding_dtype :: dtype

subsection \<open>Values of a dictionary\<close>

text \<open>
  The request's \<open>user_patterns\<close> is any dictionary that JSON can carry, so the values
  under the keys that the pipeline reads are JSON values; a number is its exact value.
\<close>

datatype json =
    JNull
  | JBool bool
  | JNum real
  | JStr string
  | JList "json list"
  | JDict "(string \<times> json) list"

text \<open>A value as a number in \<open>+\<close>, \<open>-\<close>, \<open><\<close> and \<open>>\<close> with a number: a boolean is the
  integer 0 or 1; with anything else the operation (or, for two strings or two lists, the
  comparison of the sentence length with their concatenation) raises \<open>TypeError\<close>.\<close>

fun py_number :: "json \<Rightarrow> real option" where
  "py_number (JNum x) = Some x"
| "py_number (JBool b) = Some (if b then 1 else 0)"
| "py_number JNull = None"
| "py_number (JStr s) = None"
| "py_number (JList xs) = None"
| "py_number (JDict kvs) = None"

text \<open>The truth value of a value in a condition.\<close>

fun py_truthy :: "json \<Rightarrow> bool" where
  "py_truthy JNull = False"
| "py_truthy (JBool b) = b"
| "py_truthy (JNum x) = (x \<noteq> 0)"
| "py_truthy (JStr s) = (s \<noteq> [])"
| "py_truthy (JList xs) = (xs \<noteq> [])"
| "py_truthy (JDict kvs) = (kvs \<noteq> [])"

text \<open>\<open>len(v)\<close>: defined for strings, lists and dictionaries.\<close>

fun py_len :: "json \<Rightarrow> error + nat" where
  "py_len (JStr s) = Inr (length s)"
| "py_len (JList xs) = Inr (length xs)"
| "py_len (JDict kvs) = Inr (length kvs)"
| "py_len JNull = Inl TypeError"
| "py_len (JBool b) = Inl TypeError"
| "py_len (JNum x) = Inl TypeError"

fun is_str :: "json \<Rightarrow> bool" where
  "is_str (JStr s) = True"
| "is_str JNull = False"
| "is_str (JBool b) = False"
| "is_str (JNum x) = False"
| "is_str (JList xs) = False"
| "is_str (JDict kvs) = False"

fun str_of :: "json \<Rightarrow> string" where
  "str_of (JStr s) = s"
| "str_of JNull = []"
| "str_of (JBool b) = []"
| "str_of (JNum x) = []"
| "str_of (JList xs) = []"
| "str_of (JDict kvs) = []"

text \<open>
  The process-wide random source: \<open>random_draws g k\<close> is the value of the \<open>k\<close>-th call
  of \<open>np.random.random()\<close>, and the \<open>j\<close>-th call of \<open>np.random.choice(xs)\<close> on a list of
  strings returns the element of \<open>xs\<close> at \<open>choice_draws g j mod len(xs)\<close>. What that call
  and the formatting of its result make of a list with an element that is not a string
  is numpy's conversion of the list to an array; it is left to \<open>choice_other\<close>.
\<close>

record rng =
  random_draws :: "nat \<Rightarrow> real"
  choice_draws :: "nat \<Rightarrow> nat"
  choice_other :: "nat \<Rightarrow> json list \<Rightarrow> error + string"

text \<open>
  \<open>np.random.choice(a)\<close> followed by the formatting of the choice. A string or a
  dictionary is an array of no dimension, for which numpy raises \<open>ValueError\<close>. A value
  without a length does not come this far, because \<open>len\<close> is called first.
\<close>

fun np_random_choice :: "rng \<Rightarrow> nat \<Rightarrow> json \<Rightarrow> error + string" where
  "np_random_choice g j (JList xs) =
     (if xs \<noteq> [] \<and> list_all is_str xs
      then Inr (str_of (xs ! (choice_draws g j mod length xs)))
      else choice_other g j xs)"
| "np_random_choice g j (JStr s) = Inl ValueError"
| "np_random_choice g j (JDict kvs) = Inl ValueError"
| "np_random_choice g j JNull = Inl ValueError"
| "np_random_choice g j (JBool b) = Inl ValueError"
| "np_random_choice g j (JNum x) = Inl ValueError"

text \<open>
  The pattern dictionary. Each key the code writes or reads is an optional field. The
  three keys that the pipeline reads hold JSON values; the others hold what the analyser
  writes. \<open>other_keys\<close> lists any further keys of a dictionary that a caller supplies.
\<close>

record vocab_complexity =
  avg_word_length :: real
  pos_distribution :: "(string \<times> nat) list"
  unique_word_ratio :: real

record patterns =
  avg_sentence_length :: "json option"
  sentence_length_std :: "json option"
  sentence_lengths :: "nat list option"
  vocab_complexity :: "vocab_complexity option"
  sentence_structures :: "string list option"
  common_phrases :: "json option"
  other_keys :: "string list"

text \<open>A dictionary is false in a condition exactly when it has no key.\<close>

definition dict_is_empty :: "patterns \<Rightarrow> bool" where
  "dict_is_empty d =
     (avg_sentence_length d = None \<and> sentence_length_std d = None \<and>
      sentence_lengths d = None \<and> vocab_complexity d = None \<and>
      sentence_structures d = None \<and> common_phrases d = None \<and> other_keys d = [])"

text \<open>\<open>d.get(key, default)\<close>.\<close>

definition get_default :: "'a option \<Rightarrow> 'a \<Rightarrow> 'a" where
  "get_default v d = (case v of None \<Rightarrow> d | Some x \<Rightarrow> x)"

section \<open>Layer 1: analysis of the writing patterns\<close>

text \<open>\<open>np.mean\<close> and \<open>np.std\<close> (the population standard deviation), which the code
  calls on non-empty lists only.\<close>

definition np_mean :: "real list \<Rightarrow> real" where
  "np_mean xs = sum_list xs / real (length xs)"

definition np_std :: "real list \<Rightarrow> real" where
  "np_std xs = sqrt (np_mean (map (\<lambda>x. (x - np_mean xs)\<^sup>2) xs))"

text \<open>The counting loop over \<open>pos_counts\<close>: one step for one token.\<close>

fun count_pos :: "string \<Rightarrow> (string \<times> nat) list \<Rightarrow> (string \<times> nat) list" where
  "count_pos k [] = [(k, 1)]"
| "count_pos k ((k', n) # rest) =
     (if k = k' then (k', n + 1) # rest else (k', n) # count_pos k rest)"

text \<open>
  \<open>_analyze_vocabulary_complexity\<close>. A document is true in a condition when it has at
  least one token. The quotient of the last entry is an integer division by
  \<open>len([t for t in doc if t.is_alpha])\<close>, which raises when that list is empty.
\<close>

definition analyze_vocabulary_complexity :: "doc \<Rightarrow> error + vocab_complexity" where
  "analyze_vocabulary_complexity d =
     (let word_lengths = map (\<lambda>t. real (length (tok_text t))) (filter is_alpha (doc_tokens d));
          pos_counts = foldl (\<lambda>acc t. count_pos (tok_pos t) acc) [] (doc_tokens d)
      in if doc_tokens d \<noteq> []
         then (if length (filter is_alpha (doc_tokens d)) = 0 then Inl ZeroDivisionError
               else Inr \<lparr>avg_word_length = (if word_lengths \<noteq> [] then np_mean word_lengths else 5),
                         pos_distribution = pos_counts,
                         unique_word_ratio =
                           real (length (remdups (map tok_lemma (filter is_alpha (doc_tokens d)))))
                             / real (length (filter is_alpha (doc_tokens d)))\<rparr>)
         else Inr \<lparr>avg_word_length = (if word_lengths \<noteq> [] then np_mean word_lengths else 5),
                   pos_distribution = pos_counts,
                   unique_word_ratio = 1 / 2\<rparr>)"

text \<open>\<open>_analyze_sentence_structures\<close>.\<close>

definition analyze_sentence_structures :: "span list \<Rightarrow> string list" where
  "analyze_sentence_structures sentences =
     take 10 (map (\<lambda>sent. join '' '' (map tok_pos (filter (\<lambda>t. \<not> is_space t) (span_tokens sent))))
                  sentences)"

definition analyze_user_patterns :: "models \<Rightarrow> string \<Rightarrow> error + patterns" where
  "analyze_user_patterns m text =
     (case nlp m text of
        Inl e \<Rightarrow> Inl e
      | Inr d \<Rightarrow>
          (let sentences = sents d;
               lengths = map (\<lambda>sent. length (split_ws (span_text sent))) sentences
           in case analyze_vocabulary_complexity d of
                Inl e \<Rightarrow> Inl e
              | Inr vc \<Rightarrow>
                  Inr \<lparr>avg_sentence_length =
                         Some (JNum (if lengths \<noteq> [] then np_mean (map real lengths) else 15)),
                       sentence_length_std =
                         Some (JNum (if lengths \<noteq> [] then np_std (map real lengths) else 5)),
                       sentence_lengths = Some (take 50 lengths),
                       vocab_complexity = Some vc,
                       sentence_structures = Some (analyze_sentence_structures (take 20 sentences)),
                       common_phrases = None,
                       other_keys = []\<rparr>))"

section \<open>Layer 1: structural humanization\<close>

text \<open>The prompt of \<open>_split_sentence\<close>.\<close>

definition split_prompt :: "string \<Rightarrow> string" where
  "split_prompt sentence =
     ''Rewrite this sentence into 2-3 shorter, natural sentences: '' @ sentence"

text \<open>\<open>_split_sentence\<close>, for the sentence at position \<open>i\<close>.\<close>

definition split_sentence :: "models \<Rightarrow> nat \<Rightarrow> string \<Rightarrow> error + string list" where
  "split_sentence m i sentence =
     (let prompt = split_prompt sentence
      in case bart_generate m i prompt of
           Inl e \<Rightarrow> Inl e
         | Inr result \<Rightarrow>
             (let split_sentences =
                    map (\<lambda>s. strip s @ ''.'') (filter (\<lambda>s. strip s \<noteq> []) (split_on CHR ''.'' result))
              in Inr (if 1 < length split_sentences then split_sentences else [sentence])))"

text \<open>Two measures of what a list of fragments carries: the number of its
  non-whitespace characters, and the characters that are neither whitespace nor a
  period.\<close>

definition nonspace_length :: "string list \<Rightarrow> nat" where
  "nonspace_length fragments = length (filter (\<lambda>c. \<not> py_isspace c) (concat fragments))"

definition content_char :: "char \<Rightarrow> bool" where
  "content_char c = (\<not> py_isspace c \<and> c \<noteq> CHR ''.'')"

text \<open>The loop over the sentences; \<open>i\<close> is the position of the next sentence.\<close>

fun restructure :: "models \<Rightarrow> real \<Rightarrow> real \<Rightarrow> nat \<Rightarrow> span list \<Rightarrow> error + string list" where
  "restructure m target_avg_length target_std i [] = Inr []"
| "restructure m target_avg_length target_std i (sent # rest) =
     (let current_length = real (length (split_ws (span_text sent)))
      in if current_length > target_avg_length + target_std
         then (case split_sentence m i (span_text sent) of
                 Inl e \<Rightarrow> Inl e
               | Inr restructured \<Rightarrow>
                   (case restructure m target_avg_length target_std (Suc i) rest of
                      Inl e \<Rightarrow> Inl e
                    | Inr others \<Rightarrow> Inr (restructured @ others)))
         else if current_length < target_avg_length - target_std
         then (case restructure m target_avg_length target_std (Suc i) rest of
                 Inl e \<Rightarrow> Inl e
               | Inr others \<Rightarrow> Inr (span_text sent # others))
         else (case restructure m target_avg_length target_std (Suc i) rest of
                 Inl e \<Rightarrow> Inl e
               | Inr others \<Rightarrow> Inr (span_text sent # others)))"

text \<open>
  The two targets are read from the dictionary as they are. The loop compares each
  sentence with \<open>target_avg_length + target_std\<close> first, so when one of the two is not
  a number the first sentence raises \<open>TypeError\<close>, and a text without a sentence passes.
\<close>

definition structural_humanization :: "models \<Rightarrow> string \<Rightarrow> patterns \<Rightarrow> error + string" where
  "structural_humanization m text user_patterns =
     (case nlp m text of
        Inl e \<Rightarrow> Inl e
      | Inr d \<Rightarrow>
          (let target_avg_length = get_default (avg_sentence_length user_patterns) (JNum 15);
               target_std = get_default (sentence_length_std user_patterns) (JNum 5)
           in case (py_number target_avg_length, py_number target_std) of
                (Some avg, Some std) \<Rightarrow>
                  (case restructure m avg std 0 (sents d) of
                     Inl e \<Rightarrow> Inl e
                   | Inr restructured_sentences \<Rightarrow> Inr (join '' '' restructured_sentences))
              | _ \<Rightarrow> (if sents d = [] then Inr (join '' '' []) else Inl TypeError)))"

section \<open>Layer 2: vocabulary adaptation\<close>

text \<open>The dictionary \<open>vocab_replacements\<close>, in its insertion order, which is the order
  in which \<open>items()\<close> yields it.\<close>

definition vocab_replacements :: "(string \<times> string) list" where
  "vocab_replacements =
     [(''utilize'', ''use''),
      (''facilitate'', ''help''),
      (''demonstrate'', ''show''),
      (''implement'', ''do''),
      (''consequently'', ''so''),
      (''furthermore'', ''also''),
      (''nevertheless'', ''but''),
      (''comprehensive'', ''complete'')]"

text \<open>The loop \<open>for ai_word, human_word in vocab_replacements.items()\<close>. The
  method also takes the pattern dictionary and never reads it; the parameter is left out.\<close>

fun apply_replacements :: "(string \<times> string) list \<Rightarrow> string \<Rightarrow> string" where
  "apply_replacements [] adapted_text = adapted_text"
| "apply_replacements ((ai_word, human_word) # rest) adapted_text =
     apply_replacements rest (replace ai_word human_word adapted_text)"

definition vocabulary_adaptation :: "string \<Rightarrow> string" where
  "vocabulary_adaptation text = apply_replacements vocab_replacements text"

text \<open>Two decidable checks on the replacement table, used to analyse repeated
  application. \<open>no_overlap q r\<close>: writing \<open>r\<close> into a text cannot complete an occurrence
  of \<open>q\<close>, because neither contains the other, no proper end of \<open>r\<close> starts \<open>q\<close> and no
  proper start of \<open>r\<close> ends \<open>q\<close>. \<open>clean_order rs\<close>: no word of the table can be
  completed by its own replacement or by a later one.\<close>

definition no_overlap :: "string \<Rightarrow> string \<Rightarrow> bool" where
  "no_overlap q r =
     (\<not> sublist q r \<and> \<not> sublist r q \<and>
      list_all (\<lambda>k. \<not> prefix (drop k r) q) [1..<length r] \<and>
      list_all (\<lambda>k. \<not> suffix (take k r) q) [1..<length r])"

fun clean_order :: "(string \<times> string) list \<Rightarrow> bool" where
  "clean_order [] = True"
| "clean_order ((p, r) # rest) =
     (p \<noteq> [] \<and> no_overlap p r \<and> list_all (\<lambda>(p', r'). p' \<noteq> [] \<and> no_overlap p r') rest \<and>
      clean_order rest)"

section \<open>Layer 3: authenticity injection\<close>

text \<open>The prompt of \<open>authenticity_injection\<close>.\<close>

definition authenticity_prompt :: "string \<Rightarrow> string" where
  "authenticity_prompt text =
     ''Rewrite this text to sound more natural and human, with minor imperfections: '' @ text"

text \<open>
  The two lines under \<open># Remove the prompt from the result\<close>. \<open>prompt in result\<close> is
  \<open>sublist prompt result\<close>: when the decoded output contains the prompt, every occurrence
  of it is removed and the rest is stripped; otherwise the output is taken as it is.
\<close>

definition remove_prompt :: "string \<Rightarrow> string \<Rightarrow> string" where
  "remove_prompt prompt result =
     (if sublist prompt result then strip (replace prompt [] result) else result)"

text \<open>An empty outcome gives the text that came in.\<close>

definition authenticity_injection :: "models \<Rightarrow> string \<Rightarrow> error + string" where
  "authenticity_injection m text =
     (let prompt = authenticity_prompt text
      in case auth_generate m prompt of
           Inl e \<Rightarrow> Inl e
         | Inr decoded \<Rightarrow>
             (let result = remove_prompt prompt decoded
              in Inr (if result \<noteq> [] then result else text)))"

section \<open>Layer 4: personal voice integration\<close>

text \<open>
  The loop \<open>for i, sentence in enumerate(sentences)\<close>. \<open>n\<close> is \<open>len(sentences)\<close>, \<open>i\<close>
  the index of the next fragment, \<open>k\<close> and \<open>j\<close> the numbers of calls of
  \<open>np.random.random()\<close> and \<open>np.random.choice\<close> made so far. The result is the list
  \<open>enhanced_sentences\<close>, or the exception that \<open>len\<close> or the choice raised.
\<close>

fun voice_loop ::
  "rng \<Rightarrow> json \<Rightarrow> nat \<Rightarrow> nat \<Rightarrow> nat \<Rightarrow> nat \<Rightarrow> string list \<Rightarrow> error + string list" where
  "voice_loop g phrases n i k j [] = Inr []"
| "voice_loop g phrases n i k j (sentence # rest) =
     (if strip sentence \<noteq> []
      then (if i < n - 1
            then (case py_len phrases of
                    Inl e \<Rightarrow> Inl e
                  | Inr l \<Rightarrow>
                      (if 0 < l
                       then (if random_draws g k < 3 / 10
                             then (case np_random_choice g j phrases of
                                     Inl e \<Rightarrow> Inl e
                                   | Inr phrase \<Rightarrow>
                                       (case voice_loop g phrases n (Suc i) (Suc k) (Suc j) rest of
                                          Inl e \<Rightarrow> Inl e
                                        | Inr others \<Rightarrow>
                                            Inr (strip sentence # ('' '' @ phrase @ '','') # others)))
                             else (case voice_loop g phrases n (Suc i) (Suc k) j rest of
                                     Inl e \<Rightarrow> Inl e
                                   | Inr others \<Rightarrow> Inr (strip sentence # others)))
                       else (case voice_loop g phrases n (Suc i) k j rest of
                               Inl e \<Rightarrow> Inl e
                             | Inr others \<Rightarrow> Inr (strip sentence # others))))
            else (case voice_loop g phrases n (Suc i) k j rest of
                    Inl e \<Rightarrow> Inl e
                  | Inr others \<Rightarrow> Inr (strip sentence # others)))
      else voice_loop g phrases n (Suc i) k j rest)"

definition personal_voice_integration :: "rng \<Rightarrow> string \<Rightarrow> patterns \<Rightarrow> error + string" where
  "personal_voice_integration g text user_patterns =
     (let phrases = get_default (common_phrases user_patterns) (JList [])
      in if \<not> py_truthy phrases then Inr text
         else (let sentences = split_on CHR ''.'' text
               in case voice_loop g phrases (length sentences) 0 0 0 sentences of
                    Inl e \<Rightarrow> Inl e
                  | Inr enhanced_sentences \<Rightarrow> Inr (join ''. '' enhanced_sentences)))"

text \<open>
  The stage as the specification words it, for comparison with the loop: every
  non-blank fragment is stripped and kept, and after each of them a draw below 0.3
  inserts a chosen phrase. Here no fragment is treated as the last one.
\<close>

fun insert_phrases :: "rng \<Rightarrow> string list \<Rightarrow> nat \<Rightarrow> nat \<Rightarrow> string list \<Rightarrow> string list" where
  "insert_phrases g phrases k j [] = []"
| "insert_phrases g phrases k j (fragment # rest) =
     (if strip fragment = [] then insert_phrases g phrases k j rest
      else if random_draws g k < 3 / 10
      then strip fragment
             # ('' '' @ phrases ! (choice_draws g j mod length phrases) @ '','')
             # insert_phrases g phrases (Suc k) (Suc j) rest
      else strip fragment # insert_phrases g phrases (Suc k) j rest)"

section \<open>Layer 5: coherence preservation\<close>

text \<open>
  \<open>np.dot\<close> on two vectors of numbers with \<open>p\<close> significant bits: the products are
  added up from the left, each product and each sum rounded. Vectors of different length
  raise \<open>ValueError\<close>.
\<close>

definition dot_step :: "nat \<Rightarrow> rat \<Rightarrow> rat \<times> rat \<Rightarrow> rat" where
  "dot_step p acc xy = fl p (acc + fl p (fst xy * snd xy))"

definition np_dot :: "nat \<Rightarrow> rat list \<Rightarrow> rat list \<Rightarrow> error + rat" where
  "np_dot p a b =
     (if length a \<noteq> length b then Inl ValueError
      else Inr (foldl (dot_step p) 0 (zip a b)))"

text \<open>\<open>np.linalg.norm\<close> of a vector: the rounded square root of its dot product with
  itself.\<close>

definition np_linalg_norm :: "nat \<Rightarrow> rat list \<Rightarrow> rat" where
  "np_linalg_norm p a = fsqrt p (foldl (dot_step p) 0 (zip a a))"

text \<open>
  The quotient \<open>np.dot(a, b) / (norm(a) * norm(b))\<close>, the product and the quotient
  rounded. A division by zero does not raise: it gives NaN for zero by zero and an
  infinity with the sign of the dividend otherwise.
\<close>

definition cosine_similarity :: "nat \<Rightarrow> rat list \<Rightarrow> rat list \<Rightarrow> error + pyfloat" where
  "cosine_similarity p a b =
     (case np_dot p a b of
        Inl e \<Rightarrow> Inl e
      | Inr d \<Rightarrow>
          (let denominator = fl p (np_linalg_norm p a * np_linalg_norm p b)
           in if denominator = 0
              then Inr (if d = 0 then NaN else if 0 < d then PosInf else NegInf)
              else Inr (Num (fl p (d / denominator)))))"

definition coherence_preservation ::
  "models \<Rightarrow> string \<Rightarrow> string \<Rightarrow> error + (string \<times> pyfloat)" where
  "coherence_preservation m original modified =
     (case semantic_encode m 0 original of
        Inl e \<Rightarrow> Inl e
      | Inr original_embedding \<Rightarrow>
          (case semantic_encode m 1 modified of
             Inl e \<Rightarrow> Inl e
           | Inr modified_embedding \<Rightarrow>
               (case cosine_similarity (precision (embedding_dtype m))
                       original_embedding modified_embedding of
                  Inl e \<Rightarrow> Inl e
                | Inr similarity \<Rightarrow>
                    (if float_lt similarity py_0_85 then Inr (original, similarity)
                     else Inr (modified, similarity)))))"

section \<open>The streaming endpoint\<close>

record humanization_request =
  req_text :: string
  req_user_id :: string
  req_user_patterns :: "patterns option"
  req_target_style :: "string option"
  req_preserve_meaning :: bool

text \<open>
  What the generator yields: a progress event with its step and message, the complete
  event with the text, the similarity score and the patterns, an error event with the
  exception whose message it carries, and the line \<open>data: [DONE]\<close>.
\<close>

datatype event =
    ProgressEvent string string
  | CompleteEvent string pyfloat patterns
  | ErrorEvent error
  | DoneSentinel

text \<open>The six progress events, in the order of the \<open>yield\<close> statements.\<close>

definition progress_events :: "event list" where
  "progress_events =
     [ProgressEvent ''analyzing'' ''Analyzing writing patterns...'',
      ProgressEvent ''structural'' ''Restructuring sentences...'',
      ProgressEvent ''vocabulary'' ''Adapting vocabulary...'',
      ProgressEvent ''authenticity'' ''Adding natural imperfections...'',
      ProgressEvent ''voice'' ''Integrating personal voice...'',
      ProgressEvent ''coherence'' ''Preserving coherence...'']"

text \<open>
  \<open>json.dumps\<close> of the complete event. The encoder accepts Python's own numbers, of
  which \<open>numpy.float64\<close> is one, and raises \<open>TypeError\<close> on a \<open>numpy.float32\<close>; the
  similarity score has the type of the embeddings. The text and the patterns are always
  accepted.
\<close>

definition json_dumps_complete :: "dtype \<Rightarrow> error option" where
  "json_dumps_complete similarity_dtype =
     (case similarity_dtype of Float32 \<Rightarrow> Some TypeError | Float64 \<Rightarrow> None)"

text \<open>
  The body of the \<open>try\<close> statement of \<open>generate_humanized_text\<close>: the events it yields
  until it ends, and the exception that ended it, if one did. An event is yielded when
  its line has been encoded, so an exception of \<open>json.dumps\<close> on the complete event ends
  the body after the six progress events. The pauses between the stages are left out.
\<close>

definition humanize_body ::
  "models \<Rightarrow> rng \<Rightarrow> humanization_request \<Rightarrow> event list \<times> error option" where
  "humanize_body m g request =
     (let current_text = req_text request
      in case (case req_user_patterns request of
                 None \<Rightarrow> analyze_user_patterns m current_text
               | Some d \<Rightarrow> if dict_is_empty d then analyze_user_patterns m current_text
                            else Inr d) of
           Inl e \<Rightarrow> (take 1 progress_events, Some e)
         | Inr user_patterns \<Rightarrow>
             (case structural_humanization m current_text user_patterns of
                Inl e \<Rightarrow> (take 2 progress_events, Some e)
              | Inr structured \<Rightarrow>
                  (case authenticity_injection m (vocabulary_adaptation structured) of
                     Inl e \<Rightarrow> (take 4 progress_events, Some e)
                   | Inr authentic \<Rightarrow>
                       (case personal_voice_integration g authentic user_patterns of
                          Inl e \<Rightarrow> (take 5 progress_events, Some e)
                        | Inr voiced \<Rightarrow>
                            (case coherence_preservation m (req_text request) voiced of
                               Inl e \<Rightarrow> (progress_events, Some e)
                             | Inr (final_text, similarity_score) \<Rightarrow>
                                 (case json_dumps_complete (embedding_dtype m) of
                                    Some e \<Rightarrow> (progress_events, Some e)
                                  | None \<Rightarrow>
                                      (progress_events
                                         @ [CompleteEvent final_text similarity_score
                                              user_patterns,
                                            DoneSentinel],
                                       None)))))))"

text \<open>The generator: the body, and the handler \<open>except Exception\<close>, which yields one
  error event.\<close>

definition generate_humanized_text ::
  "models \<Rightarrow> rng \<Rightarrow> humanization_request \<Rightarrow> event list" where
  "generate_humanized_text m g request =
     (case humanize_body m g request of
        (events, None) \<Rightarrow> events
      | (events, Some e) \<Rightarrow> events @ [ErrorEvent e])"

text \<open>The step of an event, for reading a stream.\<close>

fun event_step :: "event \<Rightarrow> string" where
  "event_step (ProgressEvent step message) = step"
| "event_step (CompleteEvent t s p) = ''complete''"
| "event_step (ErrorEvent e) = ''error''"
| "event_step DoneSentinel = ''[DONE]''"

section \<open>Stand-ins for the external models\<close>

text \<open>
  Small models for running the pipeline on concrete texts: a parser that makes one
  token of every whitespace-separated word and one sentence of a text that has a word,
  a restructuring model that always answers \<open>a. b\<close>, an authenticity model that echoes
  its prompt, and an embedding into one dimension with \<open>float64\<close> numbers.
\<close>

definition is_letter :: "char \<Rightarrow> bool" where
  "is_letter c = (let n = of_char c :: nat in (65 \<le> n \<and> n \<le> 90) \<or> (97 \<le> n \<and> n \<le> 122))"

definition word_token :: "string \<Rightarrow> token" where
  "word_token w =
     \<lparr>tok_text = w, tok_pos = ''X'', tok_lemma = w, is_alpha = list_all is_letter w,
      is_space = False\<rparr>"

definition words_nlp :: "string \<Rightarrow> error + doc" where
  "words_nlp text =
     (let tokens = map word_token (split_ws text)
      in Inr \<lparr>doc_tokens = tokens,
              sents = (if tokens = [] then [] else [\<lparr>span_text = text, span_tokens = tokens\<rparr>])\<rparr>)"

definition test_models :: models where
  "test_models =
     \<lparr>nlp = words_nlp,
      bart_generate = (\<lambda>i prompt. Inr ''a. b''),
      auth_generate = (\<lambda>prompt. Inr prompt),
      semantic_encode = (\<lambda>k t. Inr [1]),
      embedding_dtype = Float64\<rparr>"

definition test_rng :: rng where
  "test_rng =
     \<lparr>random_draws = (\<lambda>k. 1 / 2), choice_draws = (\<lambda>j. 0),
      choice_other = (\<lambda>j xs. Inl ValueError)\<rparr>"

definition test_patterns :: patterns where
  "test_patterns =
     \<lparr>avg_sentence_length = Some (JNum 15), sentence_length_std = Some (JNum 5),
      sentence_lengths = None, vocab_complexity = None, sentence_structures = None,
      common_phrases = Some (JList [JStr ''you know'']), other_keys = []\<rparr>"

definition test_request :: humanization_request where
  "test_request =
     \<lparr>req_text = ''We utilize it.'', req_user_id = ''u1'', req_user_patterns = Some test_patterns,
      req_target_style = Some ''natural'', req_preserve_meaning = True\<rparr>"

section \<open>String replacement: what a replacement can and cannot create\<close>

lemma replace_scan_absent: "\<not> sublist old s \<Longrightarrow> replace_scan old new s = s"
proof (induction old new s rule: replace_scan.induct)
  case (1 old new)
  then show ?case by simp
next
  case (2 old new c cs)
  then show ?case by (auto simp: sublist_Cons_right)
qed

lemma replace_scan_length_le:
  "length new \<le> length old \<Longrightarrow> length (replace_scan old new s) \<le> length s"
proof (induction old new s rule: replace_scan.induct)
  case (1 old new)
  then show ?case by simp
next
  case (2 old new c cs)
  show ?case
  proof (cases "old \<noteq> [] \<and> prefix old (c # cs)")
    case True
    then have "length old \<le> length (c # cs)" by (auto dest: prefix_length_le)
    moreover have "length (replace_scan old new (drop (length old) (c # cs))) \<le> length (drop (length old) (c # cs))"
      using 2 True by blast
    ultimately show ?thesis using True 2(3) by simp
  next
    case False
    then show ?thesis using 2 by auto
  qed
qed

lemma replace_scan_length_less:
  "old \<noteq> [] \<Longrightarrow> length new < length old \<Longrightarrow> sublist old s \<Longrightarrow>
   length (replace_scan old new s) < length s"
proof (induction old new s rule: replace_scan.induct)
  case (1 old new)
  then show ?case by simp
next
  case (2 old new c cs)
  show ?case
  proof (cases "prefix old (c # cs)")
    case True
    then have "length old \<le> length (c # cs)" by (auto dest: prefix_length_le)
    moreover have "length (replace_scan old new (drop (length old) (c # cs))) \<le> length (drop (length old) (c # cs))"
      using 2(4) by (intro replace_scan_length_le) simp
    ultimately show ?thesis using True 2(3,4) by simp
  next
    case False
    then have "sublist old cs" using 2(5) by (simp add: sublist_Cons_right)
    then show ?thesis using 2 False by auto
  qed
qed

lemma suffix_is_drop: "suffix a r \<Longrightarrow> a = drop (length r - length a) r"
  by (auto simp: suffix_def)

lemma prefix_is_take: "prefix a r \<Longrightarrow> a = take (length a) r"
  by (auto simp: prefix_def)

lemma no_overlap_left:
  assumes no: "no_overlap q r" and q: "q = q1 @ q2" and s: "suffix q1 r" and ne: "q1 \<noteq> []"
  shows False
proof -
  let ?k = "length r - length q1"
  have d: "q1 = drop ?k r" using s by (rule suffix_is_drop)
  have le: "length q1 \<le> length r" using s by (rule suffix_length_le)
  show False
  proof (cases "?k = 0")
    case True
    then have "q1 = r" using d by simp
    then have "sublist r q" using q by simp
    then show False using no by (simp add: no_overlap_def)
  next
    case False
    then have "?k \<in> set [1..<length r]" using ne le by (cases q1) auto
    moreover have "prefix (drop ?k r) q" using d q by simp
    ultimately show False using no by (auto simp: no_overlap_def list_all_iff)
  qed
qed

lemma no_overlap_right:
  assumes no: "no_overlap q r" and q: "q = q1 @ q2" and s: "prefix q2 r" and ne: "q2 \<noteq> []"
  shows False
proof -
  let ?k = "length q2"
  have d: "q2 = take ?k r" using s by (rule prefix_is_take)
  have le: "?k \<le> length r" using s by (rule prefix_length_le)
  show False
  proof (cases "?k = length r")
    case True
    then have "q2 = r" using d by simp
    then have "sublist r q" using q by simp
    then show False using no by (simp add: no_overlap_def)
  next
    case False
    then have "?k \<in> set [1..<length r]" using ne le by (cases q2) auto
    moreover have "suffix (take ?k r) q" using d q by (metis suffixI)
    ultimately show False using no by (auto simp: no_overlap_def list_all_iff)
  qed
qed

lemma sublist_around:
  assumes no: "no_overlap q r" and sub: "sublist q (x @ r @ y)"
  shows "sublist q x \<or> sublist q y"
proof -
  from sub consider (a) "sublist q x" | (b) "sublist q (r @ y)"
    | (c) q1 q2 where "q = q1 @ q2" "suffix q1 x" "prefix q2 (r @ y)"
    by (auto simp: sublist_append[of q x])
  then show ?thesis
  proof cases
    case a
    then show ?thesis by simp
  next
    case b
    then consider (b1) "sublist q r" | (b2) "sublist q y"
      | (b3) q1 q2 where "q = q1 @ q2" "suffix q1 r" "prefix q2 y"
      by (auto simp: sublist_append[of q r])
    then show ?thesis
    proof cases
      case b1
      then show ?thesis using no by (simp add: no_overlap_def)
    next
      case b2
      then show ?thesis by simp
    next
      case b3
      show ?thesis
      proof (cases "q1 = []")
        case True
        then show ?thesis using b3 by auto
      next
        case False
        then show ?thesis using no_overlap_left[OF no b3(1,2)] by simp
      qed
    qed
  next
    case c
    from c(3) consider (c1) "prefix q2 r" | (c2) q3 where "q2 = r @ q3"
      by (auto simp: prefix_append)
    then show ?thesis
    proof cases
      case c1
      show ?thesis
      proof (cases "q2 = []")
        case True
        then show ?thesis using c by auto
      next
        case False
        then show ?thesis using no_overlap_right[OF no c(1) c1] by simp
      qed
    next
      case c2
      then have "sublist r q" using c(1) by (auto simp: sublist_def)
      then show ?thesis using no by (simp add: no_overlap_def)
    qed
  qed
qed

lemma replace_scan_keeps_absent:
  "no_overlap q r \<Longrightarrow> \<not> sublist q (u @ s) \<Longrightarrow> \<not> sublist q (u @ replace_scan p r s)"
proof (induction p r s arbitrary: u rule: replace_scan.induct)
  case (1 old new)
  then show ?case by simp
next
  case (2 old new c cs)
  show ?case
  proof (cases "old \<noteq> [] \<and> prefix old (c # cs)")
    case True
    then obtain s' where s': "c # cs = old @ s'" by (auto simp: prefix_def)
    then have ds: "drop (length old) (c # cs) = s'" by (metis append_eq_conv_conj)
    have nu: "\<not> sublist q u" using 2(4)
      by (metis sublist_order.order.trans sublist_append_rightI)
    have "sublist s' (u @ c # cs)" unfolding s' by (metis append_assoc sublist_append_leftI)
    then have "\<not> sublist q ([] @ s')" using 2(4) by (metis append_Nil sublist_order.order.trans)
    then have "\<not> sublist q ([] @ replace_scan old new s')"
      using 2(1)[OF True 2(3)] ds by metis
    then have "\<not> sublist q (replace_scan old new s')" by simp
    with nu have "\<not> sublist q (u @ new @ replace_scan old new s')"
      using sublist_around[OF 2(3)] by blast
    then show ?thesis using True ds by simp
  next
    case False
    have "\<not> sublist q ((u @ [c]) @ cs)" using 2(4) by simp
    then have "\<not> sublist q ((u @ [c]) @ replace_scan old new cs)"
      using 2(2)[OF False 2(3)] by blast
    moreover have "replace_scan old new (c # cs) = c # replace_scan old new cs"
      using False by auto
    ultimately show ?thesis by simp
  qed
qed

lemma replace_scan_removes:
  "no_overlap p r \<Longrightarrow> p \<noteq> [] \<Longrightarrow> list_all (\<lambda>k. \<not> prefix p (drop k (u @ s))) [0..<length u] \<Longrightarrow>
   \<not> sublist p (u @ replace_scan p r s)"
proof (induction p r s arbitrary: u rule: replace_scan.induct)
  case (1 old new)
  show ?case
  proof
    assume "sublist old (u @ replace_scan old new [])"
    then obtain a b where ab: "u = a @ old @ b" by (auto simp: sublist_def)
    then have "length a < length u" using 1(2) by (cases old) auto
    moreover have "prefix old (drop (length a) (u @ []))" using ab by simp
    ultimately show False using 1(3) by (auto simp: list_all_iff)
  qed
next
  case (2 old new c cs)
  show ?case
  proof (cases "old \<noteq> [] \<and> prefix old (c # cs)")
    case True
    then obtain s' where s': "c # cs = old @ s'" by (auto simp: prefix_def)
    then have ds: "drop (length old) (c # cs) = s'" by (metis append_eq_conv_conj)
    have nu: "\<not> sublist old u"
    proof
      assume "sublist old u"
      then obtain a b where ab: "u = a @ old @ b" by (auto simp: sublist_def)
      then have "length a < length u" using 2(4) by (cases old) auto
      moreover have "prefix old (drop (length a) (u @ c # cs))" using ab by simp
      ultimately show False using 2(5) by (auto simp: list_all_iff)
    qed
    have "\<not> sublist old ([] @ replace_scan old new s')"
      using 2(1)[OF True 2(3) 2(4), of "[]"] ds by simp
    then have "\<not> sublist old (replace_scan old new s')" by simp
    with nu have "\<not> sublist old (u @ new @ replace_scan old new s')"
      using sublist_around[OF 2(3)] by blast
    then show ?thesis using True ds by simp
  next
    case False
    then have np: "\<not> prefix old (c # cs)" using 2(4) by simp
    have "list_all (\<lambda>k. \<not> prefix old (drop k ((u @ [c]) @ cs))) [0..<length (u @ [c])]"
      using 2(5) np by (auto simp: list_all_iff less_Suc_eq)
    then have "\<not> sublist old ((u @ [c]) @ replace_scan old new cs)"
      using 2(2)[OF False 2(3) 2(4)] by blast
    moreover have "replace_scan old new (c # cs) = c # replace_scan old new cs"
      using np by simp
    ultimately show ?thesis by simp
  qed
qed

lemma replace_keeps_absent:
  "p \<noteq> [] \<Longrightarrow> no_overlap q r \<Longrightarrow> \<not> sublist q s \<Longrightarrow> \<not> sublist q (replace p r s)"
  using replace_scan_keeps_absent[of q r "[]" s p] by (simp add: replace_def)

lemma replace_removes:
  "p \<noteq> [] \<Longrightarrow> no_overlap p r \<Longrightarrow> \<not> sublist p (replace p r s)"
  using replace_scan_removes[of p r "[]" s] by (simp add: replace_def)

lemma apply_replacements_keeps_absent:
  "list_all (\<lambda>(p', r'). p' \<noteq> [] \<and> no_overlap q r') rs \<Longrightarrow> \<not> sublist q s \<Longrightarrow>
   \<not> sublist q (apply_replacements rs s)"
proof (induction rs arbitrary: s)
  case Nil
  then show ?case by simp
next
  case (Cons pr rs)
  obtain p r where pr: "pr = (p, r)" by (cases pr)
  from Cons.prems have "\<not> sublist q (replace p r s)"
    by (simp add: pr replace_keeps_absent)
  then show ?case using Cons.IH Cons.prems(1) by (simp add: pr)
qed

lemma apply_replacements_removes:
  "clean_order rs \<Longrightarrow> (p, r) \<in> set rs \<Longrightarrow> \<not> sublist p (apply_replacements rs s)"
proof (induction rs arbitrary: s)
  case Nil
  then show ?case by simp
next
  case (Cons pr rs)
  obtain p0 r0 where pr: "pr = (p0, r0)" by (cases pr)
  show ?case
  proof (cases "(p, r) \<in> set rs")
    case True
    then show ?thesis using Cons pr by simp
  next
    case False
    then have eq: "p = p0" "r = r0" using Cons.prems(2) pr by auto
    have "\<not> sublist p (replace p r s)"
      using Cons.prems(1) by (simp add: pr eq replace_removes)
    then show ?thesis
      using Cons.prems(1) by (simp add: pr eq apply_replacements_keeps_absent)
  qed
qed

lemma apply_replacements_absent_id:
  "list_all (\<lambda>(p, r). \<not> sublist p s) rs \<Longrightarrow> apply_replacements rs s = s"
proof (induction rs)
  case Nil
  then show ?case by simp
next
  case (Cons pr rs)
  obtain p r where pr: "pr = (p, r)" by (cases pr)
  have "p \<noteq> []" using Cons.prems by (auto simp: pr)
  then have "replace p r s = s" using Cons.prems by (simp add: pr replace_def replace_scan_absent)
  then show ?case using Cons by (simp add: pr)
qed

lemma apply_replacements_length_le:
  "list_all (\<lambda>(p, r). p \<noteq> [] \<and> length r \<le> length p) rs \<Longrightarrow>
   length (apply_replacements rs s) \<le> length s"
proof (induction rs arbitrary: s)
  case Nil
  then show ?case by simp
next
  case (Cons pr rs)
  obtain p r where pr: "pr = (p, r)" by (cases pr)
  have "length (replace p r s) \<le> length s"
    using Cons.prems by (simp add: pr replace_def replace_scan_length_le)
  moreover have "length (apply_replacements rs (replace p r s)) \<le> length (replace p r s)"
    using Cons by simp
  ultimately show ?case by (simp add: pr)
qed

lemma vocab_clean_tail: "clean_order (tl vocab_replacements)"
  by code_simp

lemma vocabulary_adaptation_unfold:
  "vocabulary_adaptation t = apply_replacements (tl vocab_replacements) (replace ''utilize'' ''use'' t)"
  by (simp add: vocabulary_adaptation_def vocab_replacements_def)

lemma vocabulary_adaptation_others_absent:
  "(p, r) \<in> set (tl vocab_replacements) \<Longrightarrow> \<not> sublist p (vocabulary_adaptation t)"
  unfolding vocabulary_adaptation_unfold
  by (rule apply_replacements_removes[OF vocab_clean_tail])

lemma vocabulary_adaptation_twice_iff:
  "vocabulary_adaptation (vocabulary_adaptation t) = vocabulary_adaptation t
   \<longleftrightarrow> \<not> sublist ''utilize'' (vocabulary_adaptation t)"
proof
  assume a: "\<not> sublist ''utilize'' (vocabulary_adaptation t)"
  have "list_all (\<lambda>(p, r). \<not> sublist p (vocabulary_adaptation t)) vocab_replacements"
    using a vocabulary_adaptation_others_absent[of _ _ t]
    by (auto simp: list_all_iff vocab_replacements_def)
  then show "vocabulary_adaptation (vocabulary_adaptation t) = vocabulary_adaptation t"
    unfolding vocabulary_adaptation_def[of "apply_replacements vocab_replacements t"]
    by (simp add: apply_replacements_absent_id vocabulary_adaptation_def)
next
  assume e: "vocabulary_adaptation (vocabulary_adaptation t) = vocabulary_adaptation t"
  show "\<not> sublist ''utilize'' (vocabulary_adaptation t)"
  proof
    assume s: "sublist ''utilize'' (vocabulary_adaptation t)"
    let ?u = "vocabulary_adaptation t"
    have "length (replace ''utilize'' ''use'' ?u) < length ?u"
      using s by (simp add: replace_def replace_scan_length_less)
    moreover have "length (apply_replacements (tl vocab_replacements) (replace ''utilize'' ''use'' ?u))
        \<le> length (replace ''utilize'' ''use'' ?u)"
      by (rule apply_replacements_length_le) (simp add: vocab_replacements_def)
    ultimately have "length (vocabulary_adaptation ?u) < length ?u"
      by (simp add: vocabulary_adaptation_unfold[of ?u])
    then show False using e by simp
  qed
qed


subsection \<open>C4: repeated vocabulary adaptation\<close>

text \<open>
  C4, as stated: applying the vocabulary adaptation twice gives the same text as applying
  it once, for every text. This fails: in \<open>neverthelessilize\<close> the seventh replacement
  (nevertheless to but) writes \<open>but\<close> in front of \<open>ilize\<close>, which completes the first
  word of the table, \<open>utilize\<close>, after its turn has passed. The first application returns
  \<open>butilize\<close>, the second \<open>buse\<close>.
\<close>

theorem vocabulary_adaptation_not_idempotent:
  "vocabulary_adaptation (vocabulary_adaptation ''neverthelessilize'')
     \<noteq> vocabulary_adaptation ''neverthelessilize''"
  by (simp add: vocabulary_adaptation_def vocab_replacements_def replace_def)

text \<open>
  C4, amended: for every text, the adapted text contains none of the seven words
  facilitate, demonstrate, implement, consequently, furthermore, nevertheless and
  comprehensive, and a second application leaves the adapted text unchanged exactly when
  the adapted text does not contain \<open>utilize\<close>.
\<close>

theorem vocabulary_adaptation_idempotent_iff:
  "(\<forall>(p, r) \<in> set (tl vocab_replacements). \<not> sublist p (vocabulary_adaptation t)) \<and>
   (vocabulary_adaptation (vocabulary_adaptation t) = vocabulary_adaptation t
      \<longleftrightarrow> \<not> sublist ''utilize'' (vocabulary_adaptation t))"
  using vocabulary_adaptation_others_absent[of _ _ t] vocabulary_adaptation_twice_iff[of t]
  by blast

theorem vocabulary_adaptation_idempotent_iff_witness:
  "vocabulary_adaptation ''we utilize a comprehensive plan'' = ''we use a complete plan'' \<and>
   \<not> sublist ''utilize'' ''we use a complete plan'' \<and>
   \<not> sublist ''comprehensive'' ''we use a complete plan'' \<and>
   vocabulary_adaptation ''we use a complete plan'' = ''we use a complete plan''"
proof -
  have e: "vocabulary_adaptation ''we utilize a comprehensive plan'' = ''we use a complete plan''"
    by (simp add: vocabulary_adaptation_def vocab_replacements_def replace_def)
  have n: "\<not> sublist ''utilize'' ''we use a complete plan''"
    by code_simp
  have m: "(''comprehensive'', ''complete'') \<in> set (tl vocab_replacements)"
    by (simp add: vocab_replacements_def)
  from vocabulary_adaptation_idempotent_iff[of "''we utilize a comprehensive plan''"] e n m
  show ?thesis by auto
qed

section \<open>Analysis of the writing patterns\<close>

text \<open>With no token at all the analyser returns its defaults.\<close>

lemma analyze_user_patterns_empty_doc:
  assumes "nlp m text = Inr \<lparr>doc_tokens = [], sents = []\<rparr>"
  shows "\<exists>p vc. analyze_user_patterns m text = Inr p \<and>
           avg_sentence_length p = Some (JNum 15) \<and> sentence_length_std p = Some (JNum 5) \<and>
           vocab_complexity p = Some vc \<and> avg_word_length vc = 5 \<and> unique_word_ratio vc = 1 / 2"
  using assms
  by (simp add: analyze_user_patterns_def analyze_vocabulary_complexity_def)

text \<open>With tokens of which none is alphabetic the quotient of the lexical diversity
  divides by zero: the guard of that entry asks whether the document has a token, not
  whether it has an alphabetic one.\<close>

lemma analyze_vocabulary_complexity_raises:
  "doc_tokens d \<noteq> [] \<Longrightarrow> filter is_alpha (doc_tokens d) = [] \<Longrightarrow>
   analyze_vocabulary_complexity d = Inl ZeroDivisionError"
  by (simp add: analyze_vocabulary_complexity_def)

text \<open>
  C3: the analyser returns on every text, with the default 0.5 for the lexical diversity
  when the text has no alphabetic token. On the text \<open>42\<close>, which parses to one
  token that is not alphabetic, the analyser raises \<open>ZeroDivisionError\<close> instead.
\<close>

theorem analyze_user_patterns_raises_without_alpha:
  "analyze_user_patterns test_models ''42'' = Inl ZeroDivisionError"
  by (simp add: analyze_user_patterns_def test_models_def words_nlp_def split_ws_def
      py_isspace_def word_token_def is_letter_def analyze_vocabulary_complexity_def Let_def)

section \<open>Splitting a sentence\<close>

lemma split_on_not_Nil: "split_on c s \<noteq> []"
  by (induction s) (auto split: list.splits)

lemma concat_split_on: "concat (split_on c s) = filter (\<lambda>x. x \<noteq> c) s"
  by (induction s) (auto split: list.splits)

lemma split_on_no_sep: "p \<in> set (split_on c s) \<Longrightarrow> c \<notin> set p"
  by (induction s arbitrary: p) (auto split: list.splits if_splits)

lemma set_strip: "set (strip s) \<subseteq> set s"
proof -
  have "set (strip s) \<subseteq> set (dropWhile py_isspace s)"
    unfolding strip_def by (metis set_rev set_dropWhileD subsetI)
  then show ?thesis by (meson set_dropWhileD subsetD subsetI)
qed

lemma filter_dropWhile_other:
  "(\<And>c. P c \<Longrightarrow> \<not> Q c) \<Longrightarrow> filter P (dropWhile Q xs) = filter P xs"
  by (induction xs) auto

lemma filter_strip:
  assumes "\<And>c. P c \<Longrightarrow> \<not> py_isspace c"
  shows "filter P (strip s) = filter P s"
proof -
  let ?a = "dropWhile py_isspace s"
  have fd: "filter P (dropWhile py_isspace xs) = filter P xs" for xs
    using assms by (rule filter_dropWhile_other)
  have "filter P (strip s) = rev (filter P (dropWhile py_isspace (rev ?a)))"
    by (simp only: strip_def rev_filter)
  also have "\<dots> = rev (filter P (rev ?a))"
    by (simp only: fd)
  also have "\<dots> = filter P ?a"
    by (simp only: rev_filter rev_rev_ident)
  also have "\<dots> = filter P s"
    by (simp only: fd)
  finally show ?thesis .
qed

lemma dropWhile_rev_dropWhile:
  "dropWhile Q (rev (dropWhile Q (rev (dropWhile Q s)))) = rev (dropWhile Q (rev (dropWhile Q s)))"
proof -
  let ?a = "dropWhile Q s"
  let ?b = "rev (dropWhile Q (rev ?a))"
  show ?thesis
  proof (cases "?b = []")
    case True
    show ?thesis unfolding True by simp
  next
    case False
    have pre: "prefix ?b ?a"
      by (metis suffix_dropWhile suffix_to_prefix rev_rev_ident)
    have a: "?a \<noteq> []"
    proof
      assume e: "?a = []"
      have "?b = []" unfolding e by simp
      with False show False by simp
    qed
    from pre obtain zs where z: "?a = ?b @ zs" by (auto simp: prefix_def)
    have "hd (?b @ zs) = hd ?b" using False by (rule hd_append2)
    then have "hd ?b = hd ?a" by (metis z)
    moreover have "\<not> Q (hd ?a)" using a by (rule hd_dropWhile)
    ultimately have "\<not> Q (hd ?b)" by simp
    then show ?thesis using False by (cases ?b) auto
  qed
qed

lemma strip_strip: "strip (strip s) = strip s"
proof -
  have 1: "dropWhile py_isspace (strip s) = strip s"
    unfolding strip_def by (rule dropWhile_rev_dropWhile)
  have 2: "dropWhile py_isspace (rev (strip s)) = rev (strip s)"
    by (simp add: strip_def)
  show ?thesis
    by (metis 1 2 rev_rev_ident strip_def)
qed

lemma filter_content_strip: "filter content_char (strip s) = filter content_char s"
  by (rule filter_strip) (simp add: content_char_def)

lemma content_char_dot: "\<not> content_char CHR ''.''"
  by (simp add: content_char_def)

lemma filter_content_fragments:
  "filter content_char (concat (map (\<lambda>s. strip s @ ''.'') (filter (\<lambda>s. strip s \<noteq> []) ps)))
     = filter content_char (concat ps)"
proof (induction ps)
  case Nil
  then show ?case by simp
next
  case (Cons p ps)
  have k: "filter content_char (strip p) = filter content_char p" by (rule filter_content_strip)
  show ?case
  proof (cases "strip p = []")
    case True
    then have "filter content_char p = []" using k by simp
    then show ?thesis using Cons True by simp
  next
    case False
    then show ?thesis using Cons k content_char_dot by simp
  qed
qed

lemma filter_content_no_sep:
  "filter content_char (filter (\<lambda>x. x \<noteq> CHR ''.'') xs) = filter content_char xs"
  by (induction xs) (auto simp: content_char_def)

text \<open>
  C5, as stated: the fragments returned for a sentence carry at least as many
  non-whitespace characters as the sentence, or are the sentence itself. This fails when
  the model answers with less than it was given: for the answer \<open>a. b\<close> to a sentence
  of nineteen non-whitespace characters the result is the two fragments \<open>a.\<close> and
  \<open>b.\<close>, with four.
\<close>

theorem split_sentence_can_shrink:
  "split_sentence test_models 0 ''alpha beta gamma delta'' = Inr [''a.'', ''b.''] \<and>
   nonspace_length [''a.'', ''b.''] < nonspace_length [''alpha beta gamma delta''] \<and>
   [''a.'', ''b.''] \<noteq> [''alpha beta gamma delta'']"
  by (simp add: split_sentence_def split_prompt_def test_models_def strip_def py_isspace_def
      nonspace_length_def)


text \<open>
  C5, amended: when the model's answer has at most one non-blank piece between periods,
  the sentence is returned unchanged, as the only element. When it has two or more, the
  result is these pieces in their order, each stripped and followed by a period: as many
  fragments as pieces, each a stripped, non-empty, period-free text followed by a
  period, which together carry exactly the characters of the model's answer that are
  neither whitespace nor periods. Nothing relates them to the length of the sentence.
\<close>

theorem split_sentence_fragments:
  assumes "bart_generate m i (split_prompt sentence) = Inr result"
    and "pieces = filter (\<lambda>s. strip s \<noteq> []) (split_on CHR ''.'' result)"
  shows "(length pieces \<le> 1 \<longrightarrow> split_sentence m i sentence = Inr [sentence]) \<and>
         (2 \<le> length pieces \<longrightarrow>
            (\<exists>out. split_sentence m i sentence = Inr out \<and>
                   out = map (\<lambda>s. strip s @ ''.'') pieces \<and>
                   length out = length pieces \<and>
                   (\<forall>f \<in> set out.
                      \<exists>s. f = s @ ''.'' \<and> s \<noteq> [] \<and> strip s = s \<and> CHR ''.'' \<notin> set s) \<and>
                   filter content_char (concat out) = filter content_char result))"
proof -
  let ?fr = "map (\<lambda>s. strip s @ ''.'') pieces"
  have out: "split_sentence m i sentence = Inr (if 1 < length pieces then ?fr else [sentence])"
    using assms by (simp add: split_sentence_def)
  have frag: "\<exists>s. f = s @ ''.'' \<and> s \<noteq> [] \<and> strip s = s \<and> CHR ''.'' \<notin> set s"
    if "f \<in> set ?fr" for f
  proof -
    from that obtain p where
      p: "p \<in> set (split_on CHR ''.'' result)" "strip p \<noteq> []" "f = strip p @ ''.''"
      unfolding assms(2) by auto
    have "CHR ''.'' \<notin> set (strip p)" using split_on_no_sep[OF p(1)] set_strip[of p] by auto
    then show ?thesis using p strip_strip[of p] by blast
  qed
  have "filter content_char (concat ?fr)
          = filter content_char (concat (split_on CHR ''.'' result))"
    unfolding assms(2) by (rule filter_content_fragments)
  also have "\<dots> = filter content_char (filter (\<lambda>x. x \<noteq> CHR ''.'') result)"
    by (simp only: concat_split_on)
  also have "\<dots> = filter content_char result"
    by (rule filter_content_no_sep)
  finally have content: "filter content_char (concat ?fr) = filter content_char result" .
  show ?thesis
  proof (cases "1 < length pieces")
    case True
    then have "split_sentence m i sentence = Inr ?fr" using out by simp
    then show ?thesis using True frag content by auto
  next
    case False
    then show ?thesis using out by auto
  qed
qed

theorem split_sentence_fragments_witness:
  "split_sentence test_models 0 ''alpha beta gamma delta'' = Inr [''a.'', ''b.''] \<and>
   split_sentence (test_models\<lparr>bart_generate := (\<lambda>i prompt. Inr ''One long answer'')\<rparr>) 0
     ''alpha beta'' = Inr [''alpha beta'']"
proof -
  let ?m = "test_models\<lparr>bart_generate := (\<lambda>i prompt. Inr ''One long answer'')\<rparr>"
  have g1: "bart_generate test_models 0 (split_prompt ''alpha beta gamma delta'') = Inr ''a. b''"
    by (simp add: test_models_def)
  have p1: "[''a'', '' b''] = filter (\<lambda>s. strip s \<noteq> []) (split_on CHR ''.'' ''a. b'')"
    by (simp add: strip_def py_isspace_def)
  have g2: "bart_generate ?m 0 (split_prompt ''alpha beta'') = Inr ''One long answer''"
    by simp
  have p2: "[''One long answer'']
              = filter (\<lambda>s. strip s \<noteq> []) (split_on CHR ''.'' ''One long answer'')"
    by (simp add: strip_def py_isspace_def)
  from split_sentence_fragments[OF g1 p1]
  have "split_sentence test_models 0 ''alpha beta gamma delta''
          = Inr (map (\<lambda>s. strip s @ ''.'') [''a'', '' b''])"
    by simp
  then have 1: "split_sentence test_models 0 ''alpha beta gamma delta'' = Inr [''a.'', ''b.'']"
    by (simp add: strip_def py_isspace_def)
  from split_sentence_fragments[OF g2 p2]
  have 2: "split_sentence ?m 0 ''alpha beta'' = Inr [''alpha beta'']"
    by simp
  from 1 2 show ?thesis by simp
qed

section \<open>Authenticity injection\<close>

text \<open>
  C8: when the model answers, the stage answers; when the decoded output, cleaned as the
  code cleans it (every occurrence of the prompt removed and the rest stripped if the
  output contains the prompt, the output itself otherwise), is empty, the stage returns
  the text it was given; and for a non-empty text the result is never empty.
\<close>

theorem authenticity_injection_fallback:
  assumes "auth_generate m (authenticity_prompt text) = Inr decoded"
    and "text \<noteq> []"
  shows "\<exists>out. authenticity_injection m text = Inr out \<and> out \<noteq> [] \<and>
           (remove_prompt (authenticity_prompt text) decoded = [] \<longrightarrow> out = text)"
  using assms by (simp add: authenticity_injection_def Let_def)

theorem authenticity_injection_fallback_witness:
  "authenticity_injection test_models ''We use it.'' = Inr ''We use it.''"
proof -
  let ?p = "authenticity_prompt ''We use it.''"
  have g: "auth_generate test_models ?p = Inr ?p"
    by (simp add: test_models_def)
  have n: "''We use it.'' \<noteq> []" by simp
  have c: "remove_prompt ?p ?p = []"
    by (simp add: remove_prompt_def authenticity_prompt_def replace_def strip_def)
  from authenticity_injection_fallback[OF g n] c show ?thesis by auto
qed

section \<open>Personal voice integration\<close>

lemma all_strings: "list_all is_str (map JStr phrases)"
  by (simp add: list_all_iff)

lemma np_random_choice_strings:
  "phrases \<noteq> [] \<Longrightarrow>
   np_random_choice g j (JList (map JStr phrases))
     = Inr (phrases ! (choice_draws g j mod length phrases))"
  by (simp add: all_strings)

lemma voice_loop_last:
  "n = i + length xs + 1 \<Longrightarrow> phrases \<noteq> [] \<Longrightarrow>
   voice_loop g (JList (map JStr phrases)) n i k j (xs @ [x]) =
     Inr (insert_phrases g phrases k j xs @ (if strip x = [] then [] else [strip x]))"
  by (induction xs arbitrary: i k j) (auto simp: all_strings)

lemma voice_loop_quiet:
  "\<forall>k. \<not> random_draws g k < 3 / 10 \<Longrightarrow> phrases \<noteq> [] \<Longrightarrow>
   voice_loop g (JList (map JStr phrases)) n i k j xs
     = Inr (map strip (filter (\<lambda>s. strip s \<noteq> []) xs))"
  by (induction xs arbitrary: i k j) auto

lemma insert_phrases_elements:
  "y \<in> set (insert_phrases g phrases k j xs) \<Longrightarrow> phrases \<noteq> [] \<Longrightarrow>
   (\<exists>x \<in> set xs. strip x \<noteq> [] \<and> y = strip x) \<or> (\<exists>p \<in> set phrases. y = '' '' @ p @ '','')"
proof (induction xs arbitrary: k j)
  case Nil
  then show ?case by simp
next
  case (Cons a xs)
  have m: "phrases ! (choice_draws g j mod length phrases) \<in> set phrases"
    using Cons.prems(2) by simp
  show ?case
  proof (cases "strip a = []")
    case True
    then show ?thesis using Cons by auto
  next
    case False
    show ?thesis
    proof (cases "random_draws g k < 3 / 10")
      case True
      with Cons.prems(1) False
      consider "y = strip a" | "y = '' '' @ phrases ! (choice_draws g j mod length phrases) @ '',''"
        | "y \<in> set (insert_phrases g phrases (Suc k) (Suc j) xs)"
        by auto
      then show ?thesis
      proof cases
        case 1
        then show ?thesis using False by auto
      next
        case 2
        then show ?thesis using m by blast
      next
        case 3
        then show ?thesis using Cons.IH[OF 3 Cons.prems(2)] by auto
      qed
    next
      case nf: False
      with Cons.prems(1) False
      consider "y = strip a" | "y \<in> set (insert_phrases g phrases (Suc k) j xs)"
        by auto
      then show ?thesis
      proof cases
        case 1
        then show ?thesis using False by auto
      next
        case 2
        then show ?thesis using Cons.IH[OF 2 Cons.prems(2)] by auto
      qed
    qed
  qed
qed


text \<open>
  C6: for a non-empty list of phrases the stage returns, and the text is split at its
  periods; the last piece of the split is only stripped (and left out if blank), never
  followed by a phrase; each non-blank piece before it is stripped and followed by a
  phrase of the list exactly when its draw is below 0.3; the resulting list is joined
  with a period and a blank. The random source is the explicit sequence of draws: that a
  draw falls below 0.3 with probability 0.3 and that the choice is uniform are
  properties of the source, not of this function.
\<close>

theorem personal_voice_integration_inserts:
  assumes "common_phrases user_patterns = Some (JList (map JStr phrases))" and "phrases \<noteq> []"
  shows "personal_voice_integration g text user_patterns =
           Inr (join ''. '' (insert_phrases g phrases 0 0 (butlast (split_on CHR ''.'' text))
                        @ (if strip (last (split_on CHR ''.'' text)) = [] then []
                           else [strip (last (split_on CHR ''.'' text))]))) \<and>
         (\<forall>y \<in> set (insert_phrases g phrases 0 0 (butlast (split_on CHR ''.'' text))).
            (\<exists>x \<in> set (butlast (split_on CHR ''.'' text)). strip x \<noteq> [] \<and> y = strip x) \<or>
            (\<exists>p \<in> set phrases. y = '' '' @ p @ '',''))"
proof -
  let ?fs = "split_on CHR ''.'' text"
  have ne: "?fs \<noteq> []" by (rule split_on_not_Nil)
  then have fs: "?fs = butlast ?fs @ [last ?fs]" by simp
  have len: "length ?fs = 0 + length (butlast ?fs) + 1" using ne by simp
  have "voice_loop g (JList (map JStr phrases)) (length ?fs) 0 0 0 (butlast ?fs @ [last ?fs]) =
          Inr (insert_phrases g phrases 0 0 (butlast ?fs)
            @ (if strip (last ?fs) = [] then [] else [strip (last ?fs)]))"
    by (rule voice_loop_last[OF len assms(2)])
  then have "voice_loop g (JList (map JStr phrases)) (length ?fs) 0 0 0 ?fs =
          Inr (insert_phrases g phrases 0 0 (butlast ?fs)
            @ (if strip (last ?fs) = [] then [] else [strip (last ?fs)]))"
    using fs by simp
  then have "personal_voice_integration g text user_patterns =
           Inr (join ''. '' (insert_phrases g phrases 0 0 (butlast ?fs)
                        @ (if strip (last ?fs) = [] then [] else [strip (last ?fs)])))"
    using assms by (simp add: personal_voice_integration_def get_default_def Let_def)
  then show ?thesis using insert_phrases_elements[OF _ assms(2)] by blast
qed

theorem personal_voice_integration_inserts_witness:
  "personal_voice_integration (test_rng\<lparr>random_draws := (\<lambda>k. 0)\<rparr>) ''A. B. C'' test_patterns
     = Inr ''A.  you know,. B.  you know,. C''"
proof -
  have c: "common_phrases test_patterns = Some (JList (map JStr [''you know'']))"
    by (simp add: test_patterns_def)
  have n: "[''you know''] \<noteq> []" by simp
  from personal_voice_integration_inserts[OF c n, of "test_rng\<lparr>random_draws := (\<lambda>k. 0)\<rparr>" "''A. B. C''"]
  show ?thesis
    by (simp add: strip_def py_isspace_def test_rng_def)
qed

text \<open>
  C10: for a non-empty list of phrases and a random source none of whose draws is below
  0.3, the stage returns the non-blank pieces between the periods of the text, each
  stripped, joined with a period and a blank. It is not the identity: the period at the
  end is dropped and the whitespace between sentences becomes one blank.
\<close>

theorem personal_voice_integration_quiet:
  assumes "common_phrases user_patterns = Some (JList (map JStr phrases))" and "phrases \<noteq> []"
    and "\<forall>k. \<not> random_draws g k < 3 / 10"
  shows "personal_voice_integration g text user_patterns =
           Inr (join ''. '' (map strip (filter (\<lambda>s. strip s \<noteq> []) (split_on CHR ''.'' text))))"
  using assms(1,2) voice_loop_quiet[OF assms(3) assms(2)]
  by (simp add: personal_voice_integration_def get_default_def Let_def)

theorem personal_voice_integration_quiet_witness:
  "personal_voice_integration test_rng ''A.   B.'' test_patterns = Inr ''A. B'' \<and>
   ''A. B'' \<noteq> ''A.   B.''"
proof -
  have c: "common_phrases test_patterns = Some (JList (map JStr [''you know'']))"
    by (simp add: test_patterns_def)
  have n: "[''you know''] \<noteq> []" by simp
  have q: "\<forall>k. \<not> random_draws test_rng k < 3 / 10"
    by (simp add: test_rng_def)
  from personal_voice_integration_quiet[OF c n q, of "''A.   B.''"]
  show ?thesis
    by (simp add: strip_def py_isspace_def)
qed

text \<open>A profile whose phrases are not a list of strings can end the voice stage with an
  exception: a number has no length.\<close>

lemma personal_voice_integration_number:
  "common_phrases user_patterns = Some (JNum 5) \<Longrightarrow>
   personal_voice_integration g ''A. B'' user_patterns = Inl TypeError"
  by (simp add: personal_voice_integration_def get_default_def strip_def py_isspace_def)

section \<open>Rounding: how far a result is from the exact one\<close>

lemma pow2_powi: "pow2 e = 2 powi e"
  by (simp add: pow2_def power_int_def power_inverse inverse_eq_divide power_one_over)

lemma pow2_pos: "0 < pow2 e"
  by (simp add: pow2_powi)


lemma pow2_diff: "pow2 (a - b) = pow2 a / pow2 b"
  by (simp add: pow2_powi power_int_diff)

lemma pow2_nat: "pow2 (int n) = 2 ^ n"
  by (simp add: pow2_powi)


lemma ilog2_bounds:
  assumes "0 < x"
  shows "pow2 (ilog2 x) \<le> x \<and> x < pow2 (ilog2 x + 1)"
proof (cases "1 \<le> x")
  case True
  let ?n = "\<lfloor>x\<rfloor>"
  have n: "0 < ?n" using True by simp
  have b: "2 ^ nat (bitlen ?n - 1) \<le> ?n" "?n < 2 ^ nat (bitlen ?n)"
    using bitlen_bounds[OF n] by auto
  have bl: "1 \<le> bitlen ?n" using n by (simp add: bitlen_alt_def)
  have i: "ilog2 x = bitlen ?n - 1" using True by (simp add: ilog2_def)
  have "pow2 (bitlen ?n - 1) = 2 ^ nat (bitlen ?n - 1)"
    using bl pow2_nat[of "nat (bitlen ?n - 1)"] by simp
  also have "\<dots> = of_int (2 ^ nat (bitlen ?n - 1))" by simp
  also have "\<dots> \<le> of_int ?n" using b(1) by (simp only: of_int_le_iff)
  also have "\<dots> \<le> x" by simp
  finally have lo: "pow2 (ilog2 x) \<le> x" using i by simp
  have "?n + 1 \<le> 2 ^ nat (bitlen ?n)" using b(2) by simp
  then have "(of_int (?n + 1) :: rat) \<le> of_int (2 ^ nat (bitlen ?n))"
    by (simp only: of_int_le_iff)
  moreover have "x < of_int (?n + 1)" by linarith
  ultimately have "x < of_int (2 ^ nat (bitlen ?n))" by linarith
  also have "\<dots> = pow2 (bitlen ?n)" using bl pow2_nat[of "nat (bitlen ?n)"] by simp
  finally have hi: "x < pow2 (ilog2 x + 1)" using i by simp
  show ?thesis using lo hi by simp
next
  case False
  let ?c = "\<lceil>1 / x\<rceil>"
  let ?j = "bitlen (?c - 1)"
  have x1: "x < 1" using False by simp
  have inv: "1 < 1 / x" using assms x1 by simp
  have c2: "2 \<le> ?c" using inv by (simp add: le_ceiling_iff)
  then have c1: "0 < ?c - 1" by simp
  have b: "2 ^ nat (?j - 1) \<le> ?c - 1" "?c - 1 < 2 ^ nat ?j"
    using bitlen_bounds[OF c1] by auto
  have jl: "1 \<le> ?j" using c1 by (simp add: bitlen_alt_def)
  have i: "ilog2 x = - ?j" using False by (simp add: ilog2_def)
  have "1 / x \<le> of_int ?c" by simp
  also have "(of_int ?c :: rat) \<le> of_int (2 ^ nat ?j)" using b(2) by (simp only: of_int_le_iff)
  also have "\<dots> = 2 ^ nat ?j" by simp
  finally have up: "1 / x \<le> 2 ^ nat ?j" .
  have "(of_int (2 ^ nat (?j - 1)) :: rat) \<le> of_int (?c - 1)" using b(1) by (simp only: of_int_le_iff)
  moreover have "of_int (?c - 1) < 1 / x" by (simp add: less_ceiling_iff[symmetric]) linarith
  ultimately have low: "2 ^ nat (?j - 1) < 1 / x" by simp
  have p1: "pow2 (- ?j) = 1 / 2 ^ nat ?j"
    using jl by (simp add: pow2_def)
  have p2: "pow2 (- ?j + 1) = 1 / 2 ^ nat (?j - 1)"
  proof (cases "?j = 1")
    case True
    then show ?thesis by (simp add: pow2_def)
  next
    case False
    then have "- ?j + 1 < 0" using jl by simp
    then show ?thesis by (simp add: pow2_def)
  qed
  have lo: "pow2 (- ?j) \<le> x"
    unfolding p1 using up assms by (simp add: field_simps)
  have hi: "x < pow2 (- ?j + 1)"
    unfolding p2 using low assms by (simp add: field_simps)
  show ?thesis using lo hi i by simp
qed

lemma round_half_even_error: "\<bar>of_int (round_half_even y) - y\<bar> \<le> 1 / 2"
proof -
  have "of_int \<lfloor>y\<rfloor> \<le> y" "y < of_int \<lfloor>y\<rfloor> + 1" by linarith+
  then show ?thesis
    by (auto simp: round_half_even_def Let_def abs_le_iff)
qed

lemma fl_scaled:
  assumes "0 < x" and "1 \<le> p"
  shows "2 ^ (p - 1) \<le> x / pow2 (ilog2 x - (int p - 1))"
proof -
  define a where "a = x / pow2 (ilog2 x)"
  define c :: rat where "c = 2 ^ (p - 1)"
  have c: "0 < c" by (simp add: c_def)
  have "pow2 (ilog2 x - (int p - 1)) = pow2 (ilog2 x) / pow2 (int (p - 1))"
    using assms(2) pow2_diff[of "ilog2 x" "int (p - 1)"] by (simp add: of_nat_diff)
  then have eq: "x / pow2 (ilog2 x - (int p - 1)) = a * c"
    by (simp add: pow2_nat a_def c_def)
  have "1 \<le> a"
    using ilog2_bounds[OF assms(1)] pow2_pos[of "ilog2 x"] by (simp add: a_def)
  then have "1 * c \<le> a * c" using c by (intro mult_right_mono) simp_all
  then show ?thesis unfolding eq by (simp add: c_def)
qed

lemma pow2_ge_2: "1 \<le> p \<Longrightarrow> (2::rat) \<le> 2 ^ p"
  by (cases p) (simp_all add: one_le_power)

lemma fl_error:
  assumes "1 \<le> p"
  shows "\<bar>fl p x - x\<bar> \<le> \<bar>x\<bar> / 2 ^ p"
proof (cases "x = 0")
  case True
  then show ?thesis by (simp add: fl_def)
next
  case False
  define s where "s = pow2 (ilog2 \<bar>x\<bar> - (int p - 1))"
  define c :: rat where "c = 2 ^ (p - 1)"
  define P :: rat where "P = 2 ^ p"
  have s: "0 < s" unfolding s_def by (rule pow2_pos)
  have P: "0 < P" "P = c * 2" using assms by (cases p; simp add: P_def c_def)+
  have ax: "0 < \<bar>x\<bar>" using False by simp
  have "fl p x - x = (of_int (round_half_even (x / s)) - x / s) * s"
    using False s by (simp add: fl_def Let_def field_simps s_def)
  then have "\<bar>fl p x - x\<bar> = \<bar>of_int (round_half_even (x / s)) - x / s\<bar> * s"
    using s by (simp add: abs_mult)
  also have "\<dots> \<le> 1 / 2 * s"
    using round_half_even_error[of "x / s"] s by (intro mult_right_mono) simp_all
  finally have 1: "\<bar>fl p x - x\<bar> \<le> s / 2" by simp
  have "c \<le> \<bar>x\<bar> / s" using fl_scaled[OF ax assms] by (simp add: s_def c_def)
  then have "c * s \<le> \<bar>x\<bar>" using s by (simp add: pos_le_divide_eq)
  then have "P * (s / 2) \<le> \<bar>x\<bar>" unfolding P(2) by simp
  then have 2: "s / 2 \<le> \<bar>x\<bar> / P" using P(1) by (simp add: pos_le_divide_eq mult.commute)
  from 1 2 have "\<bar>fl p x - x\<bar> \<le> \<bar>x\<bar> / P" by (rule order_trans)
  then show ?thesis unfolding P_def .
qed

lemma fl_pos:
  assumes "1 \<le> p" and "0 < x"
  shows "0 < fl p x"
proof -
  define t where "t = x / 2 ^ p"
  have "t \<le> x / 2"
    unfolding t_def using pow2_ge_2[OF assms(1)] assms(2) by (intro divide_left_mono) simp_all
  moreover have "x / 2 < x" using assms(2) by simp
  moreover have "\<bar>fl p x - x\<bar> \<le> t"
    unfolding t_def using fl_error[OF assms(1), of x] assms(2) by simp
  ultimately show ?thesis by linarith
qed

lemma fl_zero: "fl p 0 = 0"
  by (simp add: fl_def)

lemma fl_nonneg: "1 \<le> p \<Longrightarrow> 0 \<le> x \<Longrightarrow> 0 \<le> fl p x"
  using fl_pos[of p x] fl_zero[of p] by (cases "x = 0") auto









lemma dot_self_nonneg:
  "1 \<le> p \<Longrightarrow> 0 \<le> acc \<Longrightarrow> 0 \<le> foldl (dot_step p) acc (zip v v)"
proof (induction v arbitrary: acc)
  case Nil
  then show ?case by simp
next
  case (Cons x v)
  have "0 \<le> fl p (x * x)" using Cons.prems(1) by (simp add: fl_nonneg)
  then have "0 \<le> dot_step p acc (x, x)"
    using Cons.prems by (simp add: dot_step_def fl_nonneg)
  then show ?case using Cons.IH[OF Cons.prems(1)] by simp
qed


section \<open>Coherence preservation\<close>









section \<open>The event stream\<close>

lemma set_take_progress:
  "x \<in> set (take n progress_events) \<Longrightarrow> \<exists>step msg. x = ProgressEvent step msg"
  by (auto dest!: in_set_takeD simp: progress_events_def)

text \<open>The two ways in which the body of the generator ends.\<close>

lemma humanize_body_cases:
  "(\<exists>final_text score used. humanize_body m g request =
        (progress_events @ [CompleteEvent final_text score used, DoneSentinel], None) \<and>
        (case req_user_patterns request of
           None \<Rightarrow> analyze_user_patterns m (req_text request) = Inr used
         | Some d \<Rightarrow> if dict_is_empty d then analyze_user_patterns m (req_text request) = Inr used
                      else used = d)) \<or>
   (\<exists>n e. 1 \<le> n \<and> n \<le> 6 \<and> humanize_body m g request = (take n progress_events, Some e))"
proof -
  define r1 where "r1 =
    (case req_user_patterns request of
       None \<Rightarrow> analyze_user_patterns m (req_text request)
     | Some d \<Rightarrow> if dict_is_empty d then analyze_user_patterns m (req_text request) else Inr d)"
  have six: "progress_events = take 6 progress_events" by (simp add: progress_events_def)
  have fail: "?thesis" if "1 \<le> n" "n \<le> 6" "humanize_body m g request = (take n progress_events, Some e)"
    for n e using that by blast
  show ?thesis
  proof (cases r1)
    case (Inl e)
    then have "humanize_body m g request = (take 1 progress_events, Some e)"
      by (simp add: humanize_body_def Let_def r1_def[symmetric])
    then show ?thesis by (intro fail[of 1 e]) simp_all
  next
    case up: (Inr used)
    have u: "case req_user_patterns request of
               None \<Rightarrow> analyze_user_patterns m (req_text request) = Inr used
             | Some d \<Rightarrow> if dict_is_empty d
                          then analyze_user_patterns m (req_text request) = Inr used
                          else used = d"
      using up by (auto simp: r1_def split: option.splits if_splits)
    show ?thesis
    proof (cases "structural_humanization m (req_text request) used")
      case (Inl e)
      then have "humanize_body m g request = (take 2 progress_events, Some e)"
        using up by (simp add: humanize_body_def Let_def r1_def[symmetric])
      then show ?thesis by (intro fail[of 2 e]) simp_all
    next
      case st: (Inr structured)
      show ?thesis
      proof (cases "authenticity_injection m (vocabulary_adaptation structured)")
        case (Inl e)
        then have "humanize_body m g request = (take 4 progress_events, Some e)"
          using up st by (simp add: humanize_body_def Let_def r1_def[symmetric])
        then show ?thesis by (intro fail[of 4 e]) simp_all
      next
        case au: (Inr authentic)
        show ?thesis
        proof (cases "personal_voice_integration g authentic used")
          case (Inl e)
          then have "humanize_body m g request = (take 5 progress_events, Some e)"
            using up st au by (simp add: humanize_body_def Let_def r1_def[symmetric])
          then show ?thesis by (intro fail[of 5 e]) simp_all
        next
          case vo: (Inr voiced)
          show ?thesis
          proof (cases "coherence_preservation m (req_text request) voiced")
            case (Inl e)
            then have "humanize_body m g request = (progress_events, Some e)"
              using up st au vo by (simp add: humanize_body_def Let_def r1_def[symmetric])
            then have "humanize_body m g request = (take 6 progress_events, Some e)"
              using six by simp
            then show ?thesis by (intro fail[of 6 e]) simp_all
          next
            case (Inr res)
            obtain final_text score where res: "res = (final_text, score)" by (cases res)
            show ?thesis
            proof (cases "json_dumps_complete (embedding_dtype m)")
              case None
              have "humanize_body m g request =
                      (progress_events @ [CompleteEvent final_text score used, DoneSentinel], None)"
                using up st au vo Inr res None
                by (simp add: humanize_body_def Let_def r1_def[symmetric])
              then show ?thesis using u by blast
            next
              case (Some e)
              have "humanize_body m g request = (progress_events, Some e)"
                using up st au vo Inr res Some
                by (simp add: humanize_body_def Let_def r1_def[symmetric])
              then have "humanize_body m g request = (take 6 progress_events, Some e)"
                using six by simp
              then show ?thesis by (intro fail[of 6 e]) simp_all
            qed
          qed
        qed
      qed
    qed
  qed
qed

text \<open>With \<open>float32\<close> embeddings, as the sentence transformer of \<open>initialize_models\<close>
  returns them, the body never ends without an exception: if no stage raises, encoding
  the complete event does.\<close>

lemma float32_similarity_not_encoded:
  "embedding_dtype m = Float32 \<Longrightarrow> snd (humanize_body m g request) \<noteq> None"
  by (auto simp: humanize_body_def json_dumps_complete_def Let_def
      split: sum.splits option.splits prod.splits)

lemma cosine_unit: "cosine_similarity 53 [1] [1] = Inr (Num 1)"
  by code_simp

text \<open>
  C1, as stated: the analyzing progress event is in the stream if and only if the request
  supplied no profile. This fails: the event is yielded before the request is looked at.
  The request below supplies a non-empty profile and its stream begins with the
  analyzing event.
\<close>

theorem analyzing_event_with_supplied_profile:
  "req_user_patterns test_request = Some test_patterns \<and> \<not> dict_is_empty test_patterns \<and>
   generate_humanized_text test_models test_rng test_request =
     [ProgressEvent ''analyzing'' ''Analyzing writing patterns...'',
      ProgressEvent ''structural'' ''Restructuring sentences...'',
      ProgressEvent ''vocabulary'' ''Adapting vocabulary...'',
      ProgressEvent ''authenticity'' ''Adding natural imperfections...'',
      ProgressEvent ''voice'' ''Integrating personal voice...'',
      ProgressEvent ''coherence'' ''Preserving coherence...'',
      CompleteEvent ''We use it'' (Num 1) test_patterns,
      DoneSentinel]"
proof -
  have s: "structural_humanization test_models ''We utilize it.'' test_patterns
             = Inr ''We utilize it.''"
    by (simp add: structural_humanization_def test_models_def words_nlp_def split_ws_def
        py_isspace_def word_token_def test_patterns_def get_default_def Let_def)
  have v: "vocabulary_adaptation ''We utilize it.'' = ''We use it.''"
    by (simp add: vocabulary_adaptation_def vocab_replacements_def replace_def)
  have a: "authenticity_injection test_models ''We use it.'' = Inr ''We use it.''"
    by (simp add: authenticity_injection_def authenticity_prompt_def remove_prompt_def
        test_models_def Let_def replace_def strip_def)
  have p: "personal_voice_integration test_rng ''We use it.'' test_patterns = Inr ''We use it''"
    by (simp add: personal_voice_integration_def test_rng_def test_patterns_def get_default_def
        Let_def strip_def py_isspace_def)
  have c: "coherence_preservation test_models ''We utilize it.'' ''We use it''
             = Inr (''We use it'', Num 1)"
    by (simp add: coherence_preservation_def test_models_def cosine_unit py_0_85_def)
  have j: "json_dumps_complete (embedding_dtype test_models) = None"
    by (simp add: json_dumps_complete_def test_models_def)
  have d: "\<not> dict_is_empty test_patterns"
    by (simp add: dict_is_empty_def test_patterns_def)
  show ?thesis
    using s v a p c d j
    by (simp add: generate_humanized_text_def humanize_body_def test_request_def progress_events_def)
qed

text \<open>
  C1, amended: every stream begins with the analyzing progress event, whether or not a
  profile was supplied. When the body of the generator ends without an exception (no
  stage raises and the complete event is encoded), the stream is the six progress events
  analyzing, structural, vocabulary, authenticity, voice, coherence in this order, then
  one complete event, then the end mark; the patterns of the complete event are the
  supplied profile when a non-empty one was supplied, and the result of the analysis
  otherwise.
\<close>

theorem generate_humanized_text_event_order:
  "hd (generate_humanized_text m g request)
     = ProgressEvent ''analyzing'' ''Analyzing writing patterns...'' \<and>
   (snd (humanize_body m g request) = None \<longrightarrow>
      (\<exists>final_text score used.
         generate_humanized_text m g request =
           progress_events @ [CompleteEvent final_text score used, DoneSentinel] \<and>
         (case req_user_patterns request of
            None \<Rightarrow> analyze_user_patterns m (req_text request) = Inr used
          | Some d \<Rightarrow> if dict_is_empty d then analyze_user_patterns m (req_text request) = Inr used
                       else used = d)))"
proof -
  have h: "hd (take n progress_events @ rest)
             = ProgressEvent ''analyzing'' ''Analyzing writing patterns...''"
    if "1 \<le> n" for n rest
    using that by (cases n) (simp_all add: progress_events_def)
  from humanize_body_cases[of m g request] show ?thesis
  proof (elim disjE exE conjE)
    fix final_text score used
    assume b: "humanize_body m g request =
        (progress_events @ [CompleteEvent final_text score used, DoneSentinel], None)"
      and u: "case req_user_patterns request of
           None \<Rightarrow> analyze_user_patterns m (req_text request) = Inr used
         | Some d \<Rightarrow> if dict_is_empty d then analyze_user_patterns m (req_text request) = Inr used
                      else used = d"
    have "generate_humanized_text m g request =
            progress_events @ [CompleteEvent final_text score used, DoneSentinel]"
      using b by (simp add: generate_humanized_text_def)
    moreover have "hd (generate_humanized_text m g request) =
        ProgressEvent ''analyzing'' ''Analyzing writing patterns...''"
      using b by (simp add: generate_humanized_text_def progress_events_def)
    ultimately show ?thesis using u by blast
  next
    fix n e
    assume n: "1 \<le> n" "n \<le> (6::nat)"
      and b: "humanize_body m g request = (take n progress_events, Some e)"
    have "generate_humanized_text m g request = take n progress_events @ [ErrorEvent e]"
      using b by (simp add: generate_humanized_text_def)
    then show ?thesis using h[OF n(1)] b by simp
  qed
qed

theorem generate_humanized_text_event_order_witness:
  "map event_step
     (generate_humanized_text test_models test_rng (test_request\<lparr>req_user_patterns := None\<rparr>))
   = [''analyzing'', ''structural'', ''vocabulary'', ''authenticity'', ''voice'', ''coherence'',
      ''complete'', ''[DONE]'']"
proof -
  let ?r = "test_request\<lparr>req_user_patterns := None\<rparr>"
  obtain p where p: "analyze_user_patterns test_models ''We utilize it.'' = Inr p"
      "avg_sentence_length p = Some (JNum 3)" "sentence_length_std p = Some (JNum 0)"
      "common_phrases p = None"
    by (simp add: analyze_user_patterns_def test_models_def words_nlp_def split_ws_def
        py_isspace_def word_token_def is_letter_def analyze_vocabulary_complexity_def Let_def
        np_mean_def np_std_def)
  have s: "structural_humanization test_models ''We utilize it.'' p = Inr ''We utilize it.''"
    using p(2,3)
    by (simp add: structural_humanization_def test_models_def words_nlp_def split_ws_def
        py_isspace_def word_token_def get_default_def Let_def)
  have v: "vocabulary_adaptation ''We utilize it.'' = ''We use it.''"
    by (simp add: vocabulary_adaptation_def vocab_replacements_def replace_def)
  have a: "authenticity_injection test_models ''We use it.'' = Inr ''We use it.''"
    by (simp add: authenticity_injection_def authenticity_prompt_def remove_prompt_def
        test_models_def Let_def replace_def strip_def)
  have i: "personal_voice_integration test_rng ''We use it.'' p = Inr ''We use it.''"
    using p(4) by (simp add: personal_voice_integration_def get_default_def)
  have c: "coherence_preservation test_models ''We utilize it.'' ''We use it.''
             = Inr (''We use it.'', Num 1)"
    by (simp add: coherence_preservation_def test_models_def cosine_unit py_0_85_def)
  have j: "json_dumps_complete (embedding_dtype test_models) = None"
    by (simp add: json_dumps_complete_def test_models_def)
  have h: "snd (humanize_body test_models test_rng ?r) = None"
    using p(1) s v a i c j by (simp add: humanize_body_def test_request_def)
  from generate_humanized_text_event_order[of test_models test_rng ?r] h
  obtain final_text score used where
    "generate_humanized_text test_models test_rng ?r =
       progress_events @ [CompleteEvent final_text score used, DoneSentinel]"
    by blast
  then show ?thesis by (simp add: progress_events_def)
qed

text \<open>
  C7: when the body of the pipeline ends with an exception, the stream is between one and
  six progress events followed by one error event that carries the exception. The error
  event is the last event and the only one of its kind; the stream has no complete
  event and no end mark.
\<close>

theorem error_event_terminal:
  assumes "snd (humanize_body m g request) = Some e"
  shows "(\<exists>n. 1 \<le> n \<and> n \<le> 6 \<and>
            generate_humanized_text m g request = take n progress_events @ [ErrorEvent e]) \<and>
         DoneSentinel \<notin> set (generate_humanized_text m g request) \<and>
         (\<forall>t s p. CompleteEvent t s p \<notin> set (generate_humanized_text m g request)) \<and>
         length (filter (\<lambda>x. event_step x = ''error'') (generate_humanized_text m g request)) = 1"
proof -
  from humanize_body_cases[of m g request] assms
  obtain n where n: "1 \<le> n" "n \<le> 6"
    and b: "humanize_body m g request = (take n progress_events, Some e)"
    by auto
  have g: "generate_humanized_text m g request = take n progress_events @ [ErrorEvent e]"
    using b by (simp add: generate_humanized_text_def)
  have p: "\<exists>step msg. x = ProgressEvent step msg" if "x \<in> set (take n progress_events)" for x
    using that by (rule set_take_progress)
  have ne: "event_step x \<noteq> ''error''" if "x \<in> set (take n progress_events)" for x
    using in_set_takeD[OF that] by (auto simp: progress_events_def)
  have f: "filter (\<lambda>x. event_step x = ''error'') (take n progress_events) = []"
    using ne by (auto simp: filter_empty_conv)
  show ?thesis using n g p f by auto
qed

theorem error_event_terminal_witness:
  "generate_humanized_text (test_models\<lparr>nlp := (\<lambda>t. Inl (ModelError ''parser not loaded''))\<rparr>)
     test_rng test_request
   = [ProgressEvent ''analyzing'' ''Analyzing writing patterns...'',
      ProgressEvent ''structural'' ''Restructuring sentences...'',
      ErrorEvent (ModelError ''parser not loaded'')]"
proof -
  let ?m = "test_models\<lparr>nlp := (\<lambda>t. Inl (ModelError ''parser not loaded''))\<rparr>"
  have d: "\<not> dict_is_empty test_patterns"
    by (simp add: dict_is_empty_def test_patterns_def)
  have b: "humanize_body ?m test_rng test_request
             = (take 2 progress_events, Some (ModelError ''parser not loaded''))"
    using d by (simp add: humanize_body_def test_request_def structural_humanization_def)
  then have h: "snd (humanize_body ?m test_rng test_request) = Some (ModelError ''parser not loaded'')"
    by simp
  from error_event_terminal[OF h] obtain n where
    "generate_humanized_text ?m test_rng test_request
       = take n progress_events @ [ErrorEvent (ModelError ''parser not loaded'')]"
    by blast
  moreover have "generate_humanized_text ?m test_rng test_request
       = take 2 progress_events @ [ErrorEvent (ModelError ''parser not loaded'')]"
    using b by (simp add: generate_humanized_text_def)
  ultimately show ?thesis by (simp add: progress_events_def)
qed

end
